theory Spec2Isabelle
  imports Complex_Main "HOL-Library.Log_Nat"
begin

section \<open>JavaScript numbers: IEEE 754 binary64 arithmetic on finite values\<close>

text \<open>
  Every \<^verbatim>\<open>number\<close> of \<^verbatim>\<open>colorUtils.ts\<close> is a binary64 double. A finite double is
  modelled by the rational it denotes, and each arithmetic operator of the source by the
  exact rational operation followed by \<open>fl\<close>, rounding to the nearest double with ties
  to the even significand (53 significant bits, gradual underflow below \<open>2 ^ -1022\<close>).
  Comparisons, \<^verbatim>\<open>Math.max\<close> and \<^verbatim>\<open>Math.min\<close> are exact on doubles.

  Infinity and NaN are not values of the model: overflow (beyond \<open>2 ^ 1024\<close>) and
  division by zero are outside it. The theorems below quantify over integer channel
  values in \<open>[0, 255]\<close> and over the HSL triples computed from them: there the
  quantities are far below the overflow threshold, every other divisor is a nonzero
  literal, and the divisors that \<^verbatim>\<open>rgbToHsl\<close> computes are nonzero
  (lemma \<open>rgbToHsl_divisors\<close>).
\<close>

definition pow2 :: "int \<Rightarrow> rat" where
  "pow2 e = (if 0 \<le> e then 2 ^ nat e else 1 / 2 ^ nat (- e))"

definition ilog2 :: "rat \<Rightarrow> int" where
  \<comment> \<open>for \<open>0 < x\<close>: the exponent \<open>e\<close> with \<open>2 ^ e \<le> x < 2 ^ (e + 1)\<close>\<close>
  "ilog2 x = (if 1 \<le> x then bitlen \<lfloor>x\<rfloor> - 1 else - bitlen (\<lceil>1 / x\<rceil> - 1))"

definition round_half_even :: "rat \<Rightarrow> int" where
  "round_half_even x =
     (let n = \<lfloor>x\<rfloor>; d = x - of_int n
      in if d < 1 / 2 then n else if 1 / 2 < d then n + 1 else if even n then n else n + 1)"

definition fexp :: "rat \<Rightarrow> int" where
  \<comment> \<open>the exponent of the unit in the last place of the double nearest to \<open>x\<close>\<close>
  "fexp x = max (ilog2 \<bar>x\<bar>) (- 1022) - 52"

definition fl :: "rat \<Rightarrow> rat" where
  "fl x = (if x = 0 then 0
     else let ulp = pow2 (fexp x)
          in sgn x * of_int (round_half_even (\<bar>x\<bar> / ulp)) * ulp)"

definition fadd :: "rat \<Rightarrow> rat \<Rightarrow> rat" where
  "fadd x y = fl (x + y)"

definition fsub :: "rat \<Rightarrow> rat \<Rightarrow> rat" where
  "fsub x y = fl (x - y)"

definition fmul :: "rat \<Rightarrow> rat \<Rightarrow> rat" where
  "fmul x y = fl (x * y)"

definition fdiv :: "rat \<Rightarrow> rat \<Rightarrow> rat" where
  "fdiv x y = fl (x / y)"

definition js_round :: "rat \<Rightarrow> int" where
  \<comment> \<open>\<^verbatim>\<open>Math.round\<close>: the nearest integer, a tie going towards plus infinity\<close>
  "js_round x = \<lfloor>x + 1 / 2\<rfloor>"

definition js_rem :: "int \<Rightarrow> int \<Rightarrow> int" where
  \<comment> \<open>the operator \<^verbatim>\<open>%\<close> on integers: the remainder takes the sign of the dividend\<close>
  "js_rem a n = sgn a * (\<bar>a\<bar> mod \<bar>n\<bar>)"


section \<open>Colour space conversion\<close>

record rgb =
  rgb_r :: int
  rgb_g :: int
  rgb_b :: int

record hsl =
  hsl_h :: int
  hsl_s :: int
  hsl_l :: int

definition rgbToHsl :: "rat \<Rightarrow> rat \<Rightarrow> rat \<Rightarrow> hsl" where
  "rgbToHsl r0 g0 b0 =
     (let r = fdiv r0 255; g = fdiv g0 255; b = fdiv b0 255;
          mx = max (max r g) b;
          mn = min (min r g) b;
          l = fdiv (fadd mx mn) 2;
          d = fsub mx mn;
          s = (if mx \<noteq> mn
               then (if 1 / 2 < l then fdiv d (fsub (fsub 2 mx) mn) else fdiv d (fadd mx mn))
               else 0);
          h = (if mx \<noteq> mn
               then (if mx = r then fdiv (fadd (fdiv (fsub g b) d) (if g < b then 6 else 0)) 6
                     else if mx = g then fdiv (fadd (fdiv (fsub b r) d) 2) 6
                     else if mx = b then fdiv (fadd (fdiv (fsub r g) d) 4) 6
                     else 0)
               else 0)
      in \<lparr>hsl_h = js_round (fmul h 360),
          hsl_s = js_round (fmul s 100),
          hsl_l = js_round (fmul l 100)\<rparr>)"

definition hue2rgb :: "rat \<Rightarrow> rat \<Rightarrow> rat \<Rightarrow> rat" where
  "hue2rgb p q t0 =
     (let t1 = (if t0 < 0 then fadd t0 1 else t0);
          t = (if 1 < t1 then fsub t1 1 else t1)
      in if t < fdiv 1 6 then fadd p (fmul (fmul (fsub q p) 6) t)
         else if t < fdiv 1 2 then q
         else if t < fdiv 2 3 then fadd p (fmul (fmul (fsub q p) (fsub (fdiv 2 3) t)) 6)
         else p)"

definition hslToRgb :: "rat \<Rightarrow> rat \<Rightarrow> rat \<Rightarrow> rgb" where
  "hslToRgb h0 s0 l0 =
     (let h = fdiv h0 360; s = fdiv s0 100; l = fdiv l0 100;
          q = (if l < 1 / 2 then fmul l (fadd 1 s) else fsub (fadd l s) (fmul l s));
          p = fsub (fmul 2 l) q;
          r = (if s = 0 then l else hue2rgb p q (fadd h (fdiv 1 3)));
          g = (if s = 0 then l else hue2rgb p q h);
          b = (if s = 0 then l else hue2rgb p q (fsub h (fdiv 1 3)))
      in \<lparr>rgb_r = js_round (fmul r 255),
          rgb_g = js_round (fmul g 255),
          rgb_b = js_round (fmul b 255)\<rparr>)"


definition hslRoundTrip :: "int \<Rightarrow> int \<Rightarrow> int \<Rightarrow> rgb" where
  \<comment> \<open>\<^verbatim>\<open>hslToRgb(rgbToHsl(r, g, b))\<close>, the three fields passed on\<close>
  "hslRoundTrip r g b =
     (let x = rgbToHsl (of_int r) (of_int g) (of_int b)
      in hslToRgb (of_int (hsl_h x)) (of_int (hsl_s x)) (of_int (hsl_l x)))"

text \<open>
  The exact counterpart of \<^verbatim>\<open>hslToRgb\<close>, over the rationals and without rounding:
  \<open>wrap01\<close> is the wrap of \<open>t\<close> into the unit interval at the head of \<^verbatim>\<open>hue2rgb\<close>,
  \<open>shape\<close> its four branches for \<open>p = 0\<close> and \<open>q = 1\<close>, and \<open>hslChannel\<close> one channel
  \<open>p + (q - p) * hueShape t\<close> with \<open>q - p = 2 * s * min l (1 - l)\<close>. They are used only to
  bound the rounding errors of the floating-point code.
\<close>

definition wrap01 :: "rat \<Rightarrow> rat" where
  "wrap01 t = (if t < 0 then t + 1 else if 1 < t then t - 1 else t)"

definition shape :: "rat \<Rightarrow> rat" where
  "shape t = (if t < 1 / 6 then 6 * t else if t < 1 / 2 then 1
              else if t < 2 / 3 then (2 / 3 - t) * 6 else 0)"

definition hueShape :: "rat \<Rightarrow> rat" where
  "hueShape t = shape (wrap01 t)"

definition hslChannel :: "rat \<Rightarrow> rat \<Rightarrow> rat \<Rightarrow> rat" where
  "hslChannel t s l = (let K = s * min l (1 - l) in l - K + 2 * (K * hueShape t))"


section \<open>Strings and the hex codec\<close>

text \<open>
  A JavaScript string is a sequence of UTF-16 code units; a code unit is modelled by its
  number. \<open>js\<close> writes a string literal of the source.
\<close>

type_synonym jsstring = "nat list"

definition js :: "string \<Rightarrow> jsstring" where
  "js cs = map of_char cs"

definition is_ws :: "nat \<Rightarrow> bool" where
  \<comment> \<open>the code units \<^verbatim>\<open>trim\<close> and \<^verbatim>\<open>parseInt\<close> strip: WhiteSpace and LineTerminator\<close>
  "is_ws c \<longleftrightarrow>
     c \<in> {9, 10, 11, 12, 13, 32, 160, 5760} \<or> (8192 \<le> c \<and> c \<le> 8202) \<or>
     c \<in> {8232, 8233, 8239, 8287, 12288, 65279}"

definition trim :: "jsstring \<Rightarrow> jsstring" where
  "trim cs = rev (dropWhile is_ws (rev (dropWhile is_ws cs)))"

definition slice :: "jsstring \<Rightarrow> nat \<Rightarrow> nat \<Rightarrow> jsstring" where
  \<comment> \<open>\<^verbatim>\<open>s.slice(i, j)\<close> for indices \<open>0 \<le> i \<le> j\<close>\<close>
  "slice cs i j = take (j - i) (drop i cs)"

definition is_hex_digit :: "nat \<Rightarrow> bool" where
  \<comment> \<open>the character class \<^verbatim>\<open>[0-9A-Fa-f]\<close>\<close>
  "is_hex_digit c \<longleftrightarrow> (48 \<le> c \<and> c \<le> 57) \<or> (65 \<le> c \<and> c \<le> 70) \<or> (97 \<le> c \<and> c \<le> 102)"

definition hex_test :: "jsstring \<Rightarrow> bool" where
  \<comment> \<open>\<^verbatim>\<open>/^[0-9A-Fa-f]+$/.test(s)\<close>\<close>
  "hex_test cs \<longleftrightarrow> cs \<noteq> [] \<and> list_all is_hex_digit cs"

definition toUpperCase :: "jsstring \<Rightarrow> jsstring" where
  \<comment> \<open>on ASCII, which is all that \<^verbatim>\<open>colorUtils.ts\<close> applies it to: hex digits and \<^verbatim>\<open>#\<close>\<close>
  "toUpperCase cs = map (\<lambda>c. if 97 \<le> c \<and> c \<le> 122 then c - 32 else c) cs"

definition normalizeHex :: "jsstring \<Rightarrow> jsstring option" where
  "normalizeHex input =
     (let hex0 = trim input;
          hex1 = (if take 1 hex0 = [35] then drop 1 hex0 else hex0)
      in if \<not> hex_test hex1 then None
         else let hex2 = (if length hex1 = 3 then concat (map (\<lambda>c. [c, c]) hex1) else hex1)
              in if length hex2 \<noteq> 6 then None
                 else Some (35 # toUpperCase hex2))"

definition digit_value :: "nat \<Rightarrow> nat" where
  "digit_value c =
     (if 48 \<le> c \<and> c \<le> 57 then c - 48
      else if 65 \<le> c \<and> c \<le> 70 then c - 55
      else c - 87)"

definition parseInt16 :: "jsstring \<Rightarrow> int option" where
  \<comment> \<open>\<^verbatim>\<open>parseInt(s, 16)\<close>; \<open>None\<close> is NaN. The value is exact below \<open>2 ^ 53\<close>.\<close>
  "parseInt16 cs =
     (let s0 = dropWhile is_ws cs;
          sgn0 = (if take 1 s0 = [45] then - 1 else 1 :: int);
          s1 = (if take 1 s0 = [43] \<or> take 1 s0 = [45] then drop 1 s0 else s0);
          s2 = (if take 2 s1 = [48, 120] \<or> take 2 s1 = [48, 88] then drop 2 s1 else s1);
          z = takeWhile is_hex_digit s2
      in if z = [] then None
         else Some (sgn0 * int (foldl (\<lambda>a c. 16 * a + digit_value c) 0 z)))"

definition hexToRgb :: "jsstring \<Rightarrow> rgb option" where
  \<comment> \<open>\<open>None\<close> is \<^verbatim>\<open>null\<close>. A NaN channel would also give \<open>None\<close> here; there is none,
      by lemma \<open>hexToRgb_Some\<close>.\<close>
  "hexToRgb hex =
     (case normalizeHex hex of
        None \<Rightarrow> None
      | Some normalized \<Rightarrow>
          if normalized = [] then None
          else let hexValue = drop 1 normalized
               in (case (parseInt16 (slice hexValue 0 2),
                         parseInt16 (slice hexValue 2 4),
                         parseInt16 (slice hexValue 4 6)) of
                     (Some r, Some g, Some b) \<Rightarrow> Some \<lparr>rgb_r = r, rgb_g = g, rgb_b = b\<rparr>
                   | _ \<Rightarrow> None))"

definition hex_digit_char :: "nat \<Rightarrow> nat" where
  "hex_digit_char d = (if d < 10 then 48 + d else 87 + d)"

fun toString16 :: "nat \<Rightarrow> jsstring" where
  "toString16 n =
     (if n < 16 then [hex_digit_char n] else toString16 (n div 16) @ [hex_digit_char (n mod 16)])"

declare toString16.simps [simp del]

definition toHex :: "rat \<Rightarrow> jsstring" where
  "toHex n =
     (let hex = toString16 (nat (max 0 (min 255 (js_round n))))
      in if length hex = 1 then 48 # hex else hex)"

definition rgbToHex :: "rat \<Rightarrow> rat \<Rightarrow> rat \<Rightarrow> jsstring" where
  "rgbToHex r g b = toUpperCase (35 # toHex r @ toHex g @ toHex b)"


definition upper_digit :: "nat \<Rightarrow> nat" where
  \<comment> \<open>the uppercase hex digit of value \<open>d < 16\<close>\<close>
  "upper_digit d = (if d < 10 then 48 + d else 55 + d)"

text \<open>
  The canonical form of a hex colour, as the specification words it: \<^verbatim>\<open>#\<close> followed by
  exactly six uppercase hexadecimal digits.
\<close>

definition is_upper_hex :: "nat \<Rightarrow> bool" where
  "is_upper_hex c \<longleftrightarrow> (48 \<le> c \<and> c \<le> 57) \<or> (65 \<le> c \<and> c \<le> 70)"

definition canonical :: "jsstring \<Rightarrow> bool" where
  "canonical cs =
     (case cs of [] \<Rightarrow> False | c # u \<Rightarrow> c = 35 \<and> length u = 6 \<and> list_all is_upper_hex u)"


section \<open>Shades, brightness and palette derivation\<close>

definition lightnessValues :: "rat list" where
  "lightnessValues = [95, 85, 75, 65, 55, 45, 35, 25, 20, 15, 10, 5]"

definition generateShades :: "jsstring \<Rightarrow> jsstring list" where
  "generateShades hex =
     (case hexToRgb hex of
        None \<Rightarrow> []
      | Some c \<Rightarrow>
          let hsl = rgbToHsl (of_int (rgb_r c)) (of_int (rgb_g c)) (of_int (rgb_b c))
          in map (\<lambda>lightness.
                let c' = hslToRgb (of_int (hsl_h hsl)) (of_int (hsl_s hsl)) lightness
                in rgbToHex (of_int (rgb_r c')) (of_int (rgb_g c')) (of_int (rgb_b c')))
               lightnessValues)"

datatype brightness = Light | Dark

definition luminance :: "rgb \<Rightarrow> rat" where
  "luminance c =
     fdiv (fadd (fadd (fmul (fl (299 / 1000)) (of_int (rgb_r c)))
                      (fmul (fl (587 / 1000)) (of_int (rgb_g c))))
                (fmul (fl (114 / 1000)) (of_int (rgb_b c))))
          255"


definition getColorBrightness :: "jsstring \<Rightarrow> brightness" where
  "getColorBrightness hex =
     (case hexToRgb hex of
        None \<Rightarrow> Dark
      | Some c \<Rightarrow> if 1 / 2 < luminance c then Light else Dark)"

datatype role = Primary | Accent | Background | Text | Other

record entry =
  entry_hex :: jsstring
  entry_label :: jsstring
  entry_role :: role

definition fallbackPalette :: "entry list" where
  "fallbackPalette =
     [\<lparr>entry_hex = js ''#3B82F6'', entry_label = js ''Primary'', entry_role = Primary\<rparr>,
      \<lparr>entry_hex = js ''#10B981'', entry_label = js ''Accent'', entry_role = Accent\<rparr>,
      \<lparr>entry_hex = js ''#F9FAFB'', entry_label = js ''Light Background'', entry_role = Background\<rparr>,
      \<lparr>entry_hex = js ''#1F2937'', entry_label = js ''Dark Text'', entry_role = Text\<rparr>,
      \<lparr>entry_hex = js ''#6366F1'', entry_label = js ''Secondary'', entry_role = Other\<rparr>]"

definition hslHex :: "rat \<Rightarrow> rat \<Rightarrow> rat \<Rightarrow> jsstring" where
  \<comment> \<open>the pair of lines \<^verbatim>\<open>xRgb = hslToRgb(..); x = rgbToHex(xRgb.r, xRgb.g, xRgb.b)\<close>\<close>
  "hslHex h s l =
     (let c = hslToRgb h s l
      in rgbToHex (of_int (rgb_r c)) (of_int (rgb_g c)) (of_int (rgb_b c)))"

definition generatePaletteFromBase :: "jsstring \<Rightarrow> entry list" where
  "generatePaletteFromBase baseHex =
     (case hexToRgb baseHex of
        None \<Rightarrow> fallbackPalette
      | Some c \<Rightarrow>
          let hsl = rgbToHsl (of_int (rgb_r c)) (of_int (rgb_g c)) (of_int (rgb_b c));
              primary = baseHex;
              accent = hslHex (of_int (js_rem (hsl_h hsl + 180) 360))
                              (of_int (hsl_s hsl)) (of_int (hsl_l hsl));
              background = hslHex (of_int (hsl_h hsl))
                                  (max 10 (fmul (of_int (hsl_s hsl)) (fl (2 / 10)))) 95;
              text = hslHex (of_int (hsl_h hsl))
                            (min 15 (fmul (of_int (hsl_s hsl)) (fl (3 / 10)))) 15;
              secondary = hslHex (of_int (js_rem (hsl_h hsl + 30) 360))
                                 (of_int (max 40 (min 80 (hsl_s hsl))))
                                 (of_int (max 35 (min 65 (hsl_l hsl + 10))))
          in [\<lparr>entry_hex = primary, entry_label = js ''Primary'', entry_role = Primary\<rparr>,
              \<lparr>entry_hex = accent, entry_label = js ''Accent'', entry_role = Accent\<rparr>,
              \<lparr>entry_hex = background, entry_label = js ''Light Background'',
               entry_role = Background\<rparr>,
              \<lparr>entry_hex = text, entry_label = js ''Dark Text'', entry_role = Text\<rparr>,
              \<lparr>entry_hex = secondary, entry_label = js ''Secondary'', entry_role = Other\<rparr>])"


section \<open>Properties of rounding\<close>

lemma pow2_powi: "pow2 e = 2 powi e"
  by (simp add: pow2_def power_int_def power_one_over)

lemma pow2_pos [simp]: "0 < pow2 e"
  by (simp add: pow2_powi)

lemma pow2_nonneg [simp]: "0 \<le> pow2 e"
  by (simp add: pow2_powi)

lemma pow2_neq0 [simp]: "pow2 e \<noteq> 0"
  by (simp add: pow2_powi)

lemma pow2_add: "pow2 (a + b) = pow2 a * pow2 b"
  by (simp add: pow2_powi power_int_add)

lemma pow2_mono: "a \<le> b \<Longrightarrow> pow2 a \<le> pow2 b"
  by (simp add: pow2_powi power_int_increasing)

lemma pow2_strict_mono: "a < b \<Longrightarrow> pow2 a < pow2 b"
  by (simp add: pow2_powi power_int_strict_increasing)

lemma pow2_less_iff: "pow2 a < pow2 b \<longleftrightarrow> a < b"
  using pow2_strict_mono [of a b] pow2_mono [of b a] by (auto simp: not_less [symmetric])

lemma pow2_le_iff: "pow2 a \<le> pow2 b \<longleftrightarrow> a \<le> b"
  using pow2_strict_mono [of b a] pow2_mono [of a b] by (auto simp: not_le [symmetric])

lemma pow2_minus: "pow2 (- e) = 1 / pow2 e"
  by (simp add: pow2_powi power_int_minus inverse_eq_divide)

lemma pow2_nat: "0 \<le> e \<Longrightarrow> pow2 e = 2 ^ nat e"
  by (simp add: pow2_def)

lemma ilog2_bounds:
  assumes "0 < x"
  shows "pow2 (ilog2 x) \<le> x" and "x < pow2 (ilog2 x + 1)"
proof -
  have "pow2 (ilog2 x) \<le> x \<and> x < pow2 (ilog2 x + 1)"
  proof (cases "1 \<le> x")
    case True
    define n where "n = \<lfloor>x\<rfloor>"
    have n: "1 \<le> n" "of_int n \<le> x" "x < of_int n + 1"
      using True floor_correct [of x] by (simp_all add: n_def le_floor_iff)
    then have npos: "0 < n" by simp
    have k: "1 \<le> bitlen n" using npos by (simp add: bitlen_alt_def)
    have b: "2 ^ nat (bitlen n - 1) \<le> n" "n < 2 ^ nat (bitlen n)"
      using bitlen_bounds [OF npos] by simp_all
    have "pow2 (bitlen n - 1) = of_int (2 ^ nat (bitlen n - 1))"
      using k by (simp add: pow2_nat)
    also have "\<dots> \<le> of_int n" using b(1) by (simp only: of_int_le_iff)
    finally have lo: "pow2 (bitlen n - 1) \<le> x" using n(2) by simp
    have "n + 1 \<le> 2 ^ nat (bitlen n)" using b(2) by simp
    then have "(of_int (n + 1) :: rat) \<le> of_int (2 ^ nat (bitlen n))"
      by (simp only: of_int_le_iff)
    then have "of_int n + 1 \<le> pow2 (bitlen n)" using k by (simp add: pow2_nat)
    then have hi: "x < pow2 (bitlen n - 1 + 1)" using n(3) by simp
    show ?thesis using True lo hi by (simp add: ilog2_def n_def)
  next
    case False
    define y where "y = 1 / x"
    have x1: "x < 1" using False by simp
    have y1: "1 < y" using assms x1 by (simp add: y_def)
    define m where "m = \<lceil>y\<rceil> - 1"
    have m: "1 \<le> m" "of_int m < y" "y \<le> of_int m + 1"
      using y1 ceiling_correct [of y] by (simp_all add: m_def less_ceiling_iff)
    then have mpos: "0 < m" by simp
    define k where "k = bitlen m"
    have k: "1 \<le> k" using mpos by (simp add: k_def bitlen_alt_def)
    have b: "2 ^ nat (k - 1) \<le> m" "m < 2 ^ nat k"
      using bitlen_bounds [OF mpos] by (simp_all add: k_def)
    have "m + 1 \<le> 2 ^ nat k" using b(2) by simp
    then have "(of_int (m + 1) :: rat) \<le> of_int (2 ^ nat k)" by (simp only: of_int_le_iff)
    then have "y \<le> pow2 k" using m(3) k by (simp add: pow2_nat)
    then have "1 \<le> pow2 k * x" using assms by (simp add: y_def field_simps)
    then have lo: "pow2 (- k) \<le> x"
      by (simp add: pow2_minus pos_divide_le_eq mult.commute)
    have "pow2 (k - 1) \<le> of_int m" using b(1) k by (simp add: pow2_nat)
    then have "pow2 (k - 1) < y" using m(2) by (rule le_less_trans)
    then have "pow2 (k - 1) * x < 1" using assms by (simp add: y_def field_simps)
    then have hi: "x < pow2 (- k + 1)"
      using pow2_minus [of "k - 1"] by (simp add: pos_less_divide_eq mult.commute)
    show ?thesis using False lo hi by (simp add: ilog2_def y_def m_def k_def)
  qed
  then show "pow2 (ilog2 x) \<le> x" and "x < pow2 (ilog2 x + 1)" by simp_all
qed


lemma ilog2_mono:
  assumes "0 < x" "x \<le> y"
  shows "ilog2 x \<le> ilog2 y"
proof -
  have "pow2 (ilog2 x) \<le> x" using assms(1) by (rule ilog2_bounds)
  also have "x \<le> y" by fact
  also have "y < pow2 (ilog2 y + 1)" using assms by (intro ilog2_bounds) simp
  finally show ?thesis by (simp add: pow2_less_iff)
qed

lemma ilog2_le:
  assumes "0 < x" "x \<le> pow2 k"
  shows "ilog2 x \<le> k"
proof -
  have "pow2 (ilog2 x) \<le> x" using assms(1) by (rule ilog2_bounds)
  then have "pow2 (ilog2 x) \<le> pow2 k" using assms(2) by simp
  then show ?thesis by (simp add: pow2_le_iff)
qed

lemma rhe_floor: "\<lfloor>x\<rfloor> \<le> round_half_even x" "round_half_even x \<le> \<lfloor>x\<rfloor> + 1"
  by (simp_all add: round_half_even_def Let_def)

lemma rhe_err: "\<bar>of_int (round_half_even x) - x\<bar> \<le> 1 / 2"
  using floor_correct [of x] by (auto simp: round_half_even_def Let_def)

lemma rhe_of_int [simp]: "round_half_even (of_int n) = n"
  by (simp add: round_half_even_def)

lemma rhe_mono:
  assumes "x \<le> y"
  shows "round_half_even x \<le> round_half_even y"
proof (cases "\<lfloor>x\<rfloor> < \<lfloor>y\<rfloor>")
  case True
  have "round_half_even x \<le> \<lfloor>x\<rfloor> + 1" by (rule rhe_floor)
  also have "\<dots> \<le> \<lfloor>y\<rfloor>" using True by simp
  also have "\<dots> \<le> round_half_even y" by (rule rhe_floor)
  finally show ?thesis .
next
  case False
  then have "\<lfloor>x\<rfloor> = \<lfloor>y\<rfloor>" using floor_mono [OF assms] by simp
  then show ?thesis using assms by (auto simp: round_half_even_def Let_def)
qed

lemma pow2_1: "pow2 1 = 2"
  by (simp add: pow2_def)

lemma pow2_52: "pow2 52 = 2 ^ 52" and pow2_53: "pow2 53 = 2 ^ 53"
  by (simp_all add: pow2_def)

lemma fl_0 [simp]: "fl 0 = 0"
  by (simp add: fl_def)

lemma fl_pos_eq:
  "0 < x \<Longrightarrow> fl x = of_int (round_half_even (x / pow2 (fexp x))) * pow2 (fexp x)"
  by (simp add: fl_def fexp_def Let_def)

lemma fexp_minus [simp]: "fexp (- x) = fexp x"
  by (simp add: fexp_def)

lemma fl_minus: "fl (- x) = - fl x"
  by (simp add: fl_def Let_def)

lemma fl_nonneg: "0 \<le> x \<Longrightarrow> 0 \<le> fl x"
proof (cases "x = 0")
  case False
  assume "0 \<le> x"
  with False have x: "0 < x" by simp
  have "0 \<le> x / pow2 (fexp x)" using x by simp
  then have "0 \<le> \<lfloor>x / pow2 (fexp x)\<rfloor>" by simp
  then have "0 \<le> round_half_even (x / pow2 (fexp x))" using rhe_floor(1) by (rule order_trans)
  then show ?thesis using x by (simp add: fl_pos_eq)
qed simp

lemma fl_upper:
  assumes "0 < x"
  shows "fl x \<le> pow2 (fexp x + 53)"
proof -
  have "x < pow2 (ilog2 x + 1)" using assms by (rule ilog2_bounds)
  also have "\<dots> \<le> pow2 (fexp x + 53)" using assms by (simp add: fexp_def pow2_le_iff)
  also have "\<dots> = 2 ^ 53 * pow2 (fexp x)" by (simp add: pow2_add [of _ 53] pow2_53)
  finally have "x / pow2 (fexp x) \<le> of_int (2 ^ 53)" by (simp add: pos_divide_le_eq)
  then have "round_half_even (x / pow2 (fexp x)) \<le> round_half_even (of_int (2 ^ 53))"
    by (rule rhe_mono)
  then have "round_half_even (x / pow2 (fexp x)) \<le> 2 ^ 53" by (simp only: rhe_of_int)
  then have "(of_int (round_half_even (x / pow2 (fexp x))) :: rat) \<le> of_int (2 ^ 53)"
    by (simp only: of_int_le_iff)
  then have "fl x \<le> of_int (2 ^ 53) * pow2 (fexp x)"
    using assms by (simp add: fl_pos_eq)
  then show ?thesis by (simp add: pow2_add [of _ 53] pow2_53)
qed

lemma fl_lower:
  assumes "0 < x" "- 1022 \<le> ilog2 x"
  shows "pow2 (ilog2 x) \<le> fl x"
proof -
  have e: "fexp x = ilog2 x - 52" using assms by (simp add: fexp_def)
  have "pow2 (ilog2 x) \<le> x" using assms(1) by (rule ilog2_bounds)
  moreover have "pow2 (ilog2 x) = 2 ^ 52 * pow2 (fexp x)"
    using pow2_add [of 52 "fexp x"] by (simp add: e pow2_52)
  ultimately have "of_int (2 ^ 52) \<le> x / pow2 (fexp x)" by (simp add: pos_le_divide_eq)
  then have "round_half_even (of_int (2 ^ 52)) \<le> round_half_even (x / pow2 (fexp x))"
    by (rule rhe_mono)
  then have "2 ^ 52 \<le> round_half_even (x / pow2 (fexp x))" by (simp only: rhe_of_int)
  then have "(of_int (2 ^ 52) :: rat) \<le> of_int (round_half_even (x / pow2 (fexp x)))"
    by (simp only: of_int_le_iff)
  then have "of_int (2 ^ 52) * pow2 (fexp x) \<le> fl x"
    using assms by (simp add: fl_pos_eq)
  then show ?thesis using pow2_add [of 52 "fexp x"] by (simp add: e pow2_52)
qed

lemma fl_mono_pos:
  assumes "0 < x" "x \<le> y"
  shows "fl x \<le> fl y"
proof -
  have y: "0 < y" using assms by simp
  have le: "fexp x \<le> fexp y" using ilog2_mono [OF assms] assms y by (simp add: fexp_def)
  show ?thesis
  proof (cases "fexp x = fexp y")
    case True
    have "x / pow2 (fexp y) \<le> y / pow2 (fexp y)" using assms by (simp add: divide_right_mono)
    then have "round_half_even (x / pow2 (fexp y)) \<le> round_half_even (y / pow2 (fexp y))"
      by (rule rhe_mono)
    then have "(of_int (round_half_even (x / pow2 (fexp y))) :: rat)
        \<le> of_int (round_half_even (y / pow2 (fexp y)))" by (simp only: of_int_le_iff)
    then show ?thesis using assms y True by (simp add: fl_pos_eq)
  next
    case False
    with le have lt: "fexp x < fexp y" by simp
    then have iy: "- 1022 \<le> ilog2 y" "fexp y = ilog2 y - 52"
      using assms y by (auto simp: fexp_def max_def split: if_splits)
    have "fl x \<le> pow2 (fexp x + 53)" using assms(1) by (rule fl_upper)
    also have "\<dots> \<le> pow2 (ilog2 y)" using lt iy by (simp add: pow2_le_iff)
    also have "\<dots> \<le> fl y" using y iy(1) by (rule fl_lower)
    finally show ?thesis .
  qed
qed

lemma fl_mono:
  assumes "x \<le> y"
  shows "fl x \<le> fl y"
proof -
  consider "0 < x" | "x \<le> 0" "0 \<le> y" | "y < 0" by linarith
  then show ?thesis
  proof cases
    case 1
    then show ?thesis using assms by (rule fl_mono_pos)
  next
    case 2
    have "fl x \<le> 0" using fl_nonneg [of "- x"] 2(1) by (simp add: fl_minus)
    also have "0 \<le> fl y" using 2(2) by (rule fl_nonneg)
    finally show ?thesis .
  next
    case 3
    have "fl (- y) \<le> fl (- x)" using 3 assms by (intro fl_mono_pos) simp_all
    then show ?thesis by (simp add: fl_minus)
  qed
qed

lemma fl_err_pos:
  assumes "0 < x"
  shows "\<bar>fl x - x\<bar> \<le> pow2 (fexp x - 1)"
proof -
  define u where "u = pow2 (fexp x)"
  have u: "0 < u" by (simp add: u_def)
  have "\<bar>of_int (round_half_even (x / u)) - x / u\<bar> \<le> 1 / 2" by (rule rhe_err)
  then have "\<bar>of_int (round_half_even (x / u)) - x / u\<bar> * u \<le> 1 / 2 * u"
    using u by (simp add: mult_right_mono)
  moreover have "(of_int (round_half_even (x / u)) - x / u) * u = fl x - x"
    using u assms by (simp add: fl_pos_eq u_def left_diff_distrib)
  then have "\<bar>of_int (round_half_even (x / u)) - x / u\<bar> * u = \<bar>fl x - x\<bar>"
    using u abs_mult_pos [of u "of_int (round_half_even (x / u)) - x / u"] by simp
  moreover have "1 / 2 * u = pow2 (fexp x - 1)"
    using pow2_add [of "fexp x" "- 1"] pow2_minus [of 1] by (simp add: u_def pow2_1)
  ultimately show ?thesis by simp
qed

lemma fl_err:
  assumes "\<bar>x\<bar> \<le> pow2 k" "- 1022 \<le> k"
  shows "\<bar>fl x - x\<bar> \<le> pow2 (k - 53)"
proof -
  have pos: "\<bar>fl y - y\<bar> \<le> pow2 (k - 53)" if "0 < y" "y \<le> pow2 k" for y
  proof -
    have "ilog2 y \<le> k" using that by (rule ilog2_le)
    then have "fexp y - 1 \<le> k - 53" using that assms(2) by (simp add: fexp_def)
    then have "pow2 (fexp y - 1) \<le> pow2 (k - 53)" by (rule pow2_mono)
    with fl_err_pos [OF that(1)] show ?thesis by simp
  qed
  consider "0 < x" | "x = 0" | "x < 0" by linarith
  then show ?thesis
  proof cases
    case 1
    then show ?thesis using assms pos by simp
  next
    case 2
    then show ?thesis using pow2_pos [of "k - 53"] by (simp add: less_imp_le)
  next
    case 3
    then have "\<bar>fl (- x) - (- x)\<bar> \<le> pow2 (k - 53)" using assms by (intro pos) simp_all
    then show ?thesis by (simp add: fl_minus abs_minus_commute)
  qed
qed

subsection \<open>Evaluation of the model on literals\<close>

lemma floor_rat_numeral: "\<lfloor>numeral a / numeral b :: rat\<rfloor> = numeral a div numeral b"
  by (metis floor_divide_of_int_eq of_int_numeral)

lemma floor_rat_one_numeral: "\<lfloor>1 / numeral b :: rat\<rfloor> = 1 div numeral b"
  by (metis floor_divide_of_int_eq of_int_numeral of_int_1)

lemma ceiling_rat_numeral: "\<lceil>numeral a / numeral b :: rat\<rceil> = - (- numeral a div numeral b)"
  by (metis ceiling_def floor_divide_of_int_eq of_int_numeral of_int_minus minus_divide_left)

lemma ceiling_rat_one_numeral: "\<lceil>1 / numeral b :: rat\<rceil> = - (- 1 div numeral b)"
  by (metis ceiling_def floor_divide_of_int_eq of_int_numeral of_int_minus minus_divide_left
      of_int_1)

lemma fl_unfold:
  "fl x = (if x = 0 then 0
     else sgn x * of_int (round_half_even (\<bar>x\<bar> / pow2 (fexp x))) * pow2 (fexp x))"
  by (simp add: fl_def Let_def)

lemma rhe_unfold:
  "round_half_even x =
     (if x - of_int \<lfloor>x\<rfloor> < 1 / 2 then \<lfloor>x\<rfloor>
      else if 1 / 2 < x - of_int \<lfloor>x\<rfloor> then \<lfloor>x\<rfloor> + 1
      else if even \<lfloor>x\<rfloor> then \<lfloor>x\<rfloor> else \<lfloor>x\<rfloor> + 1)"
  by (simp add: round_half_even_def Let_def)

lemmas fl_eval = fl_unfold fexp_def ilog2_def pow2_def rhe_unfold compute_bitlen
  floor_rat_numeral floor_rat_one_numeral ceiling_rat_numeral ceiling_rat_one_numeral
  fdiv_def fadd_def fsub_def fmul_def js_round_def


section \<open>The hex codec\<close>

lemmas str_eval = js_def trim_def is_ws_def hex_test_def is_hex_digit_def toUpperCase_def
  slice_def is_upper_hex_def

lemma upper_hex_digit: "is_upper_hex c \<Longrightarrow> is_hex_digit c"
  by (auto simp: is_upper_hex_def is_hex_digit_def)

lemma upper_hex_not_ws: "is_upper_hex c \<Longrightarrow> \<not> is_ws c"
  by (auto simp: is_upper_hex_def is_ws_def)

lemma toUpperCase_hex: "list_all is_hex_digit cs \<Longrightarrow> list_all is_upper_hex (toUpperCase cs)"
  by (induction cs) (auto simp: toUpperCase_def is_hex_digit_def is_upper_hex_def)

lemma toUpperCase_upper: "list_all is_upper_hex cs \<Longrightarrow> toUpperCase cs = cs"
  by (induction cs) (auto simp: toUpperCase_def is_upper_hex_def)

lemma length_toUpperCase [simp]: "length (toUpperCase cs) = length cs"
  by (simp add: toUpperCase_def)

lemma list_all_double: "list_all P cs \<Longrightarrow> list_all P (concat (map (\<lambda>c. [c, c]) cs))"
  by (induction cs) auto

lemma normalizeHex_canonical:
  assumes "normalizeHex x = Some y"
  shows "canonical y"
proof -
  define hex0 where "hex0 = trim x"
  define hex1 where "hex1 = (if take 1 hex0 = [35] then drop 1 hex0 else hex0)"
  define hex2 where "hex2 = (if length hex1 = 3 then concat (map (\<lambda>c. [c, c]) hex1) else hex1)"
  from assms have t: "hex_test hex1" and l: "length hex2 = 6" and y: "y = 35 # toUpperCase hex2"
    by (auto simp: normalizeHex_def Let_def hex0_def hex1_def hex2_def split: if_splits)
  from t have "list_all is_hex_digit hex2"
    by (simp add: hex2_def hex_test_def list_all_double)
  then have "list_all is_upper_hex (toUpperCase hex2)" by (rule toUpperCase_hex)
  then show ?thesis using l by (simp add: y canonical_def)
qed

lemma trim_canonical:
  assumes "canonical y"
  shows "trim y = y"
proof -
  from assms obtain u where y: "y = 35 # u" and u: "length u = 6" "list_all is_upper_hex u"
    by (auto simp: canonical_def split: list.splits)
  from u(1) have "u \<noteq> []" by auto
  then obtain v z where uz: "u = v @ [z]" by (metis rev_exhaust)
  with u(2) have "\<not> is_ws z" by (simp add: upper_hex_not_ws)
  then have "dropWhile is_ws (rev y) = rev y" by (simp add: y uz)
  moreover have "dropWhile is_ws y = y" by (simp add: y is_ws_def)
  ultimately show ?thesis by (simp add: trim_def)
qed

lemma normalizeHex_fix:
  assumes "canonical y"
  shows "normalizeHex y = Some y"
proof -
  from assms obtain u where y: "y = 35 # u" and u: "length u = 6" "list_all is_upper_hex u"
    by (auto simp: canonical_def split: list.splits)
  have "hex_test u" using u by (auto simp: hex_test_def list_all_iff upper_hex_digit)
  moreover have "trim (35 # u) = 35 # u" using trim_canonical [OF assms] by (simp add: y)
  ultimately show ?thesis
    using u by (simp add: normalizeHex_def y toUpperCase_upper)
qed

lemma normalizeHex_idem: "normalizeHex x = Some y \<Longrightarrow> normalizeHex y = Some y"
  by (rule normalizeHex_fix) (rule normalizeHex_canonical)

lemma parseInt16_two:
  assumes "is_upper_hex a" "is_upper_hex b"
  shows "parseInt16 [a, b] = Some (int (16 * digit_value a + digit_value b))"
proof -
  have ws: "\<not> is_ws a" using assms(1) by (rule upper_hex_not_ws)
  have a: "a \<noteq> 45" "a \<noteq> 43" using assms(1) by (auto simp: is_upper_hex_def)
  have b: "b \<noteq> 120" "b \<noteq> 88" using assms(2) by (auto simp: is_upper_hex_def)
  have h: "is_hex_digit a" "is_hex_digit b" using assms by (simp_all add: upper_hex_digit)
  show ?thesis using ws a b h by (simp add: parseInt16_def)
qed

lemma digit_value_upper: "is_upper_hex c \<Longrightarrow> digit_value c < 16"
  by (auto simp: is_upper_hex_def digit_value_def)

lemma length_6:
  "length u = 6 \<Longrightarrow> \<exists>a b c d e f. u = [a, b, c, d, e, f]"
  by (auto simp: eval_nat_numeral length_Suc_conv)

lemma hexToRgb_canonical:
  assumes "list_all is_upper_hex [a, b, c, d, e, f]"
  shows "hexToRgb [35, a, b, c, d, e, f] =
    Some \<lparr>rgb_r = int (16 * digit_value a + digit_value b),
          rgb_g = int (16 * digit_value c + digit_value d),
          rgb_b = int (16 * digit_value e + digit_value f)\<rparr>"
proof -
  have "canonical [35, a, b, c, d, e, f]" using assms by (simp add: canonical_def)
  then have "normalizeHex [35, a, b, c, d, e, f] = Some [35, a, b, c, d, e, f]"
    by (rule normalizeHex_fix)
  then show ?thesis using assms by (simp add: hexToRgb_def slice_def parseInt16_two)
qed

lemma hexToRgb_normalized:
  assumes "normalizeHex s = Some n"
  shows "hexToRgb s = hexToRgb n"
  using assms normalizeHex_idem [OF assms] by (simp add: hexToRgb_def)

lemma hexToRgb_Some:
  assumes "normalizeHex s = Some n"
  shows "\<exists>c. hexToRgb s = Some c \<and> 0 \<le> rgb_r c \<and> rgb_r c \<le> 255 \<and> 0 \<le> rgb_g c \<and> rgb_g c \<le> 255
     \<and> 0 \<le> rgb_b c \<and> rgb_b c \<le> 255"
proof -
  have "canonical n" using assms by (rule normalizeHex_canonical)
  then obtain u where n: "n = 35 # u" and u: "length u = 6" "list_all is_upper_hex u"
    by (auto simp: canonical_def split: list.splits)
  from length_6 [OF u(1)] obtain a b c d e f where abc: "u = [a, b, c, d, e, f]" by blast
  have up: "list_all is_upper_hex [a, b, c, d, e, f]" using u(2) by (simp add: abc)
  then have dv: "digit_value a < 16" "digit_value b < 16" "digit_value c < 16"
      "digit_value d < 16" "digit_value e < 16" "digit_value f < 16"
    by (simp_all add: digit_value_upper)
  show ?thesis
    unfolding hexToRgb_normalized [OF assms] n abc hexToRgb_canonical [OF up]
    using dv by simp
qed

text \<open>
  C9: \<^verbatim>\<open>normalizeHex\<close> is idempotent: whenever it accepts a string \<open>x\<close> and returns \<open>y\<close>,
  normalising \<open>y\<close> again returns \<open>y\<close>; and a string that is already canonical
  (\<^verbatim>\<open>#\<close> and six uppercase hex digits) is returned unchanged.
\<close>

theorem normalizeHex_idempotent:
  "(normalizeHex x = Some y \<longrightarrow> normalizeHex y = Some y) \<and>
   (canonical c \<longrightarrow> normalizeHex c = Some c)"
  using normalizeHex_idem normalizeHex_fix by blast

theorem normalizeHex_idempotent_witness:
  "normalizeHex (js '' #abc '') = Some (js ''#AABBCC'') \<and>
   canonical (js ''#AABBCC'') \<and>
   normalizeHex (js ''#AABBCC'') = Some (js ''#AABBCC'')"
proof -
  have a: "normalizeHex (js '' #abc '') = Some (js ''#AABBCC'')"
    by (simp add: normalizeHex_def str_eval)
  have c: "canonical (js ''#AABBCC'')"
    by (simp add: canonical_def str_eval)
  from normalizeHex_idempotent [of "js '' #abc ''" "js ''#AABBCC''" "js ''#AABBCC''"] a
  have "normalizeHex (js ''#AABBCC'') = Some (js ''#AABBCC'')" by blast
  with a c show ?thesis by blast
qed

text \<open>
  C10: whenever \<^verbatim>\<open>normalizeHex\<close> accepts a string \<open>s\<close>, \<^verbatim>\<open>hexToRgb\<close> accepts \<open>s\<close> too
  (it does not return \<^verbatim>\<open>null\<close>) and decodes it to the same triple as its canonical
  form \<open>n\<close>.
\<close>

theorem hexToRgb_accepts_unnormalized:
  "normalizeHex s = Some n \<Longrightarrow> hexToRgb s \<noteq> None \<and> hexToRgb s = hexToRgb n"
  using hexToRgb_Some [of s n] hexToRgb_normalized [of s n] by auto

theorem hexToRgb_accepts_unnormalized_witness:
  "normalizeHex (js '' abc'') = Some (js ''#AABBCC'') \<and>
   hexToRgb (js '' abc'') \<noteq> None \<and>
   hexToRgb (js '' abc'') = hexToRgb (js ''#AABBCC'')"
proof -
  have a: "normalizeHex (js '' abc'') = Some (js ''#AABBCC'')"
    by (simp add: normalizeHex_def str_eval)
  from hexToRgb_accepts_unnormalized [OF a] a show ?thesis by blast
qed

section \<open>Invalid input\<close>

text \<open>
  C7: for every string that \<^verbatim>\<open>normalizeHex\<close> rejects, each decode-facing function returns
  its sentinel or fallback: \<^verbatim>\<open>hexToRgb\<close> returns \<^verbatim>\<open>null\<close>, \<^verbatim>\<open>getColorBrightness\<close> returns
  \<^verbatim>\<open>'dark'\<close>, \<^verbatim>\<open>generateShades\<close> returns the empty array and \<^verbatim>\<open>generatePaletteFromBase\<close>
  returns the one fixed fallback palette, whose five roles are primary, accent, background,
  text, other in this order. No function of the model can raise.
\<close>

theorem invalid_input_fallbacks:
  "normalizeHex s = None \<Longrightarrow>
     hexToRgb s = None \<and> getColorBrightness s = Dark \<and> generateShades s = [] \<and>
     generatePaletteFromBase s = fallbackPalette \<and>
     map entry_role fallbackPalette = [Primary, Accent, Background, Text, Other]"
  by (simp add: hexToRgb_def getColorBrightness_def generateShades_def
      generatePaletteFromBase_def fallbackPalette_def)

theorem invalid_input_fallbacks_witness:
  "normalizeHex (js ''not-a-color'') = None \<and>
   hexToRgb (js ''not-a-color'') = None \<and>
   getColorBrightness (js ''not-a-color'') = Dark \<and>
   generateShades (js ''not-a-color'') = [] \<and>
   generatePaletteFromBase (js ''not-a-color'') = fallbackPalette \<and>
   map entry_role (generatePaletteFromBase (js ''not-a-color'')) =
     [Primary, Accent, Background, Text, Other]"
proof -
  have a: "normalizeHex (js ''not-a-color'') = None"
    by (simp add: normalizeHex_def str_eval)
  from invalid_input_fallbacks [OF a] a show ?thesis by simp
qed

section \<open>The primary entry of a derived palette\<close>

lemma palette_head:
  assumes "normalizeHex s = Some n"
  shows "hd (generatePaletteFromBase s) =
    \<lparr>entry_hex = s, entry_label = js ''Primary'', entry_role = Primary\<rparr>"
proof -
  from hexToRgb_Some [OF assms] obtain c where "hexToRgb s = Some c" by blast
  then show ?thesis by (simp add: generatePaletteFromBase_def Let_def)
qed

text \<open>
  The claim C4 as stated, that the primary entry's hex is the normalised input, fails:
  \<^verbatim>\<open>const primary = baseHex\<close> passes the argument through as it was given, and the
  shorthand \<^verbatim>\<open>#abc\<close> is accepted but not canonical.
\<close>

theorem primary_is_normalized_counterexample:
  "normalizeHex (js ''#abc'') = Some (js ''#AABBCC'') \<and>
   entry_hex (hd (generatePaletteFromBase (js ''#abc''))) = js ''#abc'' \<and>
   Some (entry_hex (hd (generatePaletteFromBase (js ''#abc'')))) \<noteq> normalizeHex (js ''#abc'')"
proof -
  have a: "normalizeHex (js ''#abc'') = Some (js ''#AABBCC'')"
    by (simp add: normalizeHex_def str_eval)
  have b: "entry_hex (hd (generatePaletteFromBase (js ''#abc''))) = js ''#abc''"
    by (simp add: palette_head [OF a])
  have c: "js ''#abc'' \<noteq> js ''#AABBCC''" by (simp add: js_def)
  show ?thesis using a b c by simp
qed

text \<open>
  C4 (amended): for every string \<open>s\<close> that \<^verbatim>\<open>normalizeHex\<close> accepts, the first entry of
  \<^verbatim>\<open>generatePaletteFromBase(s)\<close> has role primary and its hex is the string \<open>s\<close> itself,
  unchanged; it equals the normalised form \<open>n\<close> exactly when \<open>s\<close> is already canonical.
\<close>

theorem primary_is_input:
  "normalizeHex s = Some n \<Longrightarrow>
     entry_role (hd (generatePaletteFromBase s)) = Primary \<and>
     entry_hex (hd (generatePaletteFromBase s)) = s \<and>
     (entry_hex (hd (generatePaletteFromBase s)) = n \<longleftrightarrow> canonical s)"
proof -
  assume a: "normalizeHex s = Some n"
  have "s = n \<longleftrightarrow> canonical s"
    using a normalizeHex_canonical [OF a] normalizeHex_fix [of s] by auto
  then show ?thesis by (simp add: palette_head [OF a])
qed

theorem primary_is_input_witness:
  "normalizeHex (js ''#abc'') = Some (js ''#AABBCC'') \<and>
   entry_role (hd (generatePaletteFromBase (js ''#abc''))) = Primary \<and>
   entry_hex (hd (generatePaletteFromBase (js ''#abc''))) = js ''#abc'' \<and>
   \<not> canonical (js ''#abc'')"
proof -
  have a: "normalizeHex (js ''#abc'') = Some (js ''#AABBCC'')"
    by (simp add: normalizeHex_def str_eval)
  have c: "js ''#abc'' \<noteq> js ''#AABBCC''" by (simp add: js_def)
  from primary_is_input [OF a] a c show ?thesis by auto
qed

section \<open>Hex and RGB round trip\<close>

lemma js_round_of_int [simp]: "js_round (of_int n) = n"
  by (simp add: js_round_def floor_rat_one_numeral)

lemma toString16_byte:
  "n < 256 \<Longrightarrow> toString16 n =
     (if n < 16 then [hex_digit_char n] else [hex_digit_char (n div 16), hex_digit_char (n mod 16)])"
proof -
  assume "n < 256"
  then have "n div 16 < 16" by (simp add: less_mult_imp_div_less)
  then show ?thesis
    by (subst toString16.simps) (simp add: toString16.simps [of "n div 16"])
qed

lemma toHex_byte:
  assumes "0 \<le> r" "r \<le> 255"
  shows "toHex (of_int r) = [hex_digit_char (nat r div 16), hex_digit_char (nat r mod 16)]"
proof -
  have n: "nat r < 256" using assms by simp
  have "nat (max 0 (min 255 r)) = nat r" using assms by simp
  then show ?thesis
    using n by (auto simp: toHex_def toString16_byte hex_digit_char_def Let_def)
qed

lemma toUpperCase_Cons:
  "toUpperCase (c # cs) = (if 97 \<le> c \<and> c \<le> 122 then c - 32 else c) # toUpperCase cs"
  by (simp add: toUpperCase_def)

lemma toUpperCase_Nil [simp]: "toUpperCase [] = []"
  by (simp add: toUpperCase_def)

lemma upper_hex_digit_char:
  "d < 16 \<Longrightarrow> (if 97 \<le> hex_digit_char d \<and> hex_digit_char d \<le> 122 then hex_digit_char d - 32
     else hex_digit_char d) = upper_digit d"
  by (auto simp: hex_digit_char_def upper_digit_def)

lemma upper_digit_props:
  "d < 16 \<Longrightarrow> is_upper_hex (upper_digit d) \<and> digit_value (upper_digit d) = d"
  by (auto simp: upper_digit_def is_upper_hex_def digit_value_def)

lemma rgbToHex_bytes:
  assumes "0 \<le> r" "r \<le> 255" "0 \<le> g" "g \<le> 255" "0 \<le> b" "b \<le> 255"
  shows "rgbToHex (of_int r) (of_int g) (of_int b) =
    [35, upper_digit (nat r div 16), upper_digit (nat r mod 16),
         upper_digit (nat g div 16), upper_digit (nat g mod 16),
         upper_digit (nat b div 16), upper_digit (nat b mod 16)]"
proof -
  have d: "nat r div 16 < 16" "nat r mod 16 < 16" "nat g div 16 < 16" "nat g mod 16 < 16"
    "nat b div 16 < 16" "nat b mod 16 < 16"
    using assms by (simp_all add: less_mult_imp_div_less)
  show ?thesis
    by (simp add: rgbToHex_def toHex_byte assms toUpperCase_Cons upper_hex_digit_char d)
qed

text \<open>
  C2: for all integers \<open>r\<close>, \<open>g\<close>, \<open>b\<close> in \<open>[0, 255]\<close>, decoding the hex string that
  \<^verbatim>\<open>rgbToHex\<close> produces succeeds and gives back exactly \<open>r\<close>, \<open>g\<close>, \<open>b\<close>.
\<close>

theorem hex_rgb_roundtrip:
  assumes "0 \<le> r" "r \<le> 255" "0 \<le> g" "g \<le> 255" "0 \<le> b" "b \<le> 255"
  shows "hexToRgb (rgbToHex (of_int r) (of_int g) (of_int b)) =
    Some \<lparr>rgb_r = r, rgb_g = g, rgb_b = b\<rparr>"
proof -
  have d: "nat r div 16 < 16" "nat r mod 16 < 16" "nat g div 16 < 16" "nat g mod 16 < 16"
    "nat b div 16 < 16" "nat b mod 16 < 16"
    using assms by (simp_all add: less_mult_imp_div_less)
  have up: "list_all is_upper_hex
     [upper_digit (nat r div 16), upper_digit (nat r mod 16),
      upper_digit (nat g div 16), upper_digit (nat g mod 16),
      upper_digit (nat b div 16), upper_digit (nat b mod 16)]"
    using d by (simp add: upper_digit_props)
  show ?thesis
    unfolding rgbToHex_bytes [OF assms] hexToRgb_canonical [OF up]
    using d assms by (simp add: upper_digit_props)
qed

theorem hex_rgb_roundtrip_witness:
  "(0::int) \<le> 218 \<and> (218::int) \<le> 255 \<and> (0::int) \<le> 58 \<and> (58::int) \<le> 255 \<and>
   (0::int) \<le> 248 \<and> (248::int) \<le> 255 \<and>
   hexToRgb (rgbToHex (of_int 218) (of_int 58) (of_int 248)) =
     Some \<lparr>rgb_r = 218, rgb_g = 58, rgb_b = 248\<rparr>"
  using hex_rgb_roundtrip [of 218 58 248] by simp

section \<open>The range of \<^verbatim>\<open>rgbToHsl\<close>\<close>

lemma fl_exact:
  "fl 1 = 1" "fl 2 = 2" "fl 3 = 3" "fl 5 = 5" "fl 6 = 6" "fl 100 = 100" "fl 255 = 255"
  "fl 360 = 360" "fl (1 / 256) = 1 / 256"
  by (simp_all add: fl_eval)

lemma fl_le: "x \<le> c \<Longrightarrow> fl c = c \<Longrightarrow> fl x \<le> c"
  using fl_mono [of x c] by simp

lemma fl_ge: "c \<le> x \<Longrightarrow> fl c = c \<Longrightarrow> c \<le> fl x"
  using fl_mono [of c x] by simp

lemma fl_unit: "0 \<le> x \<Longrightarrow> x \<le> 1 \<Longrightarrow> 0 \<le> fl x \<and> fl x \<le> 1"
  by (simp add: fl_nonneg fl_le fl_exact)

lemma fdiv_ratio:
  assumes "0 \<le> a" "a \<le> b"
  shows "0 \<le> fdiv a b \<and> fdiv a b \<le> 1"
proof -
  have "0 \<le> a / b" using assms by simp
  moreover have "a / b \<le> 1" using assms by (cases "b = 0") (simp_all add: divide_le_eq_1)
  ultimately show ?thesis unfolding fdiv_def by (rule fl_unit)
qed

lemma fdiv_signed:
  assumes "\<bar>a\<bar> \<le> b"
  shows "- 1 \<le> fdiv a b \<and> fdiv a b \<le> 1 \<and> (0 \<le> a \<longrightarrow> 0 \<le> fdiv a b) \<and> (a \<le> 0 \<longrightarrow> fdiv a b \<le> 0)"
proof -
  have b: "0 \<le> b" using assms by simp
  have 1: "a / b \<le> 1" using assms by (cases "b = 0") (auto simp: divide_le_eq_1)
  have 2: "- 1 \<le> a / b" using assms by (cases "b = 0") (auto simp: le_divide_eq)
  have 3: "0 \<le> a \<Longrightarrow> 0 \<le> a / b" using b by simp
  have 4: "a \<le> 0 \<Longrightarrow> a / b \<le> 0" using b by (simp add: divide_nonpos_nonneg)
  have "- 1 \<le> fl (a / b)" using fl_mono [OF 2] by (simp add: fl_minus fl_exact)
  moreover have "fl (a / b) \<le> 1" using 1 by (simp add: fl_le fl_exact)
  moreover have "0 \<le> a \<Longrightarrow> 0 \<le> fl (a / b)" using 3 by (simp add: fl_nonneg)
  moreover have "a \<le> 0 \<Longrightarrow> fl (a / b) \<le> 0" using fl_mono [OF 4] by simp
  ultimately show ?thesis by (simp add: fdiv_def)
qed

lemma hue_fraction:
  assumes "lo \<le> q + c" "q + c \<le> hi" "0 \<le> lo" "hi \<le> 6" "fl lo = lo" "fl hi = hi"
  shows "0 \<le> fdiv (fadd q c) 6 \<and> fdiv (fadd q c) 6 \<le> 1"
proof -
  have "lo \<le> fadd q c" using assms(1,5) by (simp add: fadd_def fl_ge)
  moreover have "fadd q c \<le> hi" using assms(2,6) by (simp add: fadd_def fl_le)
  ultimately have "0 \<le> fadd q c" "fadd q c \<le> 6" using assms(3,4) by simp_all
  then show ?thesis by (intro fdiv_ratio) simp_all
qed

lemma js_round_scaled:
  assumes "0 \<le> x" "x \<le> 1" "0 \<le> n" "fl (of_int n) = of_int n"
  shows "0 \<le> js_round (fmul x (of_int n)) \<and> js_round (fmul x (of_int n)) \<le> n"
proof -
  have "0 \<le> x * of_int n" using assms by simp
  then have lo: "0 \<le> fmul x (of_int n)" by (simp add: fmul_def fl_nonneg)
  have "x * of_int n \<le> 1 * of_int n" using assms by (intro mult_right_mono) simp_all
  then have hi: "fmul x (of_int n) \<le> of_int n" using assms(4) by (simp add: fmul_def fl_le)
  have "0 \<le> js_round (fmul x (of_int n))" using lo by (simp add: js_round_def)
  moreover have "js_round (fmul x (of_int n)) \<le> n"
    using hi by (simp add: js_round_def floor_le_iff)
  ultimately show ?thesis by simp
qed


lemma fl_abs_le:
  assumes "\<bar>x\<bar> \<le> y"
  shows "\<bar>fl x\<bar> \<le> fl y"
proof -
  have "fl x \<le> fl y" using assms by (intro fl_mono) simp
  moreover have "fl (- x) \<le> fl y" using assms by (intro fl_mono) simp
  ultimately show ?thesis by (simp add: fl_minus abs_le_iff)
qed

lemma rgbToHsl_unit_range:
  fixes r g b :: rat
  assumes r: "0 \<le> r" "r \<le> 1" and g: "0 \<le> g" "g \<le> 1" and b: "0 \<le> b" "b \<le> 1"
  defines "mx \<equiv> max (max r g) b" and "mn \<equiv> min (min r g) b"
  defines "d \<equiv> fsub mx mn"
  shows lightness_unit: "0 \<le> fdiv (fadd mx mn) 2 \<and> fdiv (fadd mx mn) 2 \<le> 1"
    and saturation_hi_unit:
      "0 \<le> fdiv d (fsub (fsub 2 mx) mn) \<and> fdiv d (fsub (fsub 2 mx) mn) \<le> 1"
    and saturation_lo_unit: "0 \<le> fdiv d (fadd mx mn) \<and> fdiv d (fadd mx mn) \<le> 1"
    and hue_r_unit: "0 \<le> fdiv (fadd (fdiv (fsub g b) d) (if g < b then 6 else 0)) 6 \<and>
        fdiv (fadd (fdiv (fsub g b) d) (if g < b then 6 else 0)) 6 \<le> 1"
    and hue_g_unit: "0 \<le> fdiv (fadd (fdiv (fsub b r) d) 2) 6 \<and>
        fdiv (fadd (fdiv (fsub b r) d) 2) 6 \<le> 1"
    and hue_b_unit: "0 \<le> fdiv (fadd (fdiv (fsub r g) d) 4) 6 \<and>
        fdiv (fadd (fdiv (fsub r g) d) 4) 6 \<le> 1"
proof -
  have m: "0 \<le> mn" "mn \<le> mx" "mx \<le> 1"
    and span: "\<bar>g - b\<bar> \<le> mx - mn" "\<bar>b - r\<bar> \<le> mx - mn" "\<bar>r - g\<bar> \<le> mx - mn"
    using r g b by (auto simp: mx_def mn_def)
  have d0: "0 \<le> d" using m by (simp add: d_def fsub_def fl_nonneg)
  have "0 \<le> fadd mx mn" "fadd mx mn \<le> 2"
    using m by (simp_all add: fadd_def fl_nonneg fl_le fl_exact)
  then show "0 \<le> fdiv (fadd mx mn) 2 \<and> fdiv (fadd mx mn) 2 \<le> 1"
    by (intro fdiv_ratio) simp_all
  have "mx \<le> fsub 2 mx" using m by (simp add: fsub_def fl_ge [of 1] fl_exact order_trans [of mx 1])
  then have "mx - mn \<le> fsub 2 mx - mn" by simp
  then have "d \<le> fsub (fsub 2 mx) mn" unfolding d_def fsub_def by (rule fl_mono)
  with d0 show "0 \<le> fdiv d (fsub (fsub 2 mx) mn) \<and> fdiv d (fsub (fsub 2 mx) mn) \<le> 1"
    by (rule fdiv_ratio)
  have "mx - mn \<le> mx + mn" using m by simp
  then have "d \<le> fadd mx mn" unfolding d_def fsub_def fadd_def by (rule fl_mono)
  with d0 show "0 \<le> fdiv d (fadd mx mn) \<and> fdiv d (fadd mx mn) \<le> 1"
    by (rule fdiv_ratio)
  have q: "\<bar>fsub g b\<bar> \<le> d" "\<bar>fsub b r\<bar> \<le> d" "\<bar>fsub r g\<bar> \<le> d"
    unfolding d_def fsub_def using span by (simp_all add: fl_abs_le)
  show "0 \<le> fdiv (fadd (fdiv (fsub g b) d) (if g < b then 6 else 0)) 6 \<and>
        fdiv (fadd (fdiv (fsub g b) d) (if g < b then 6 else 0)) 6 \<le> 1"
  proof (cases "g < b")
    case True
    then have "g - b \<le> 0" by simp
    then have "fsub g b \<le> 0" using fl_mono [of "g - b" 0] by (simp add: fsub_def)
    with fdiv_signed [OF q(1)] have "5 \<le> fdiv (fsub g b) d + 6" "fdiv (fsub g b) d + 6 \<le> 6"
      by simp_all
    then show ?thesis using True by (simp add: hue_fraction [where lo = 5 and hi = 6] fl_exact)
  next
    case False
    then have "0 \<le> g - b" by simp
    then have "0 \<le> fsub g b" by (simp add: fsub_def fl_nonneg)
    with fdiv_signed [OF q(1)] have "0 \<le> fdiv (fsub g b) d + 0" "fdiv (fsub g b) d + 0 \<le> 1"
      by simp_all
    then show ?thesis
      using False hue_fraction [where lo = 0 and hi = 1 and c = 0 and q = "fdiv (fsub g b) d"]
      by (simp add: fl_exact)
  qed
  from fdiv_signed [OF q(2)] have "1 \<le> fdiv (fsub b r) d + 2" "fdiv (fsub b r) d + 2 \<le> 3"
    by simp_all
  then show "0 \<le> fdiv (fadd (fdiv (fsub b r) d) 2) 6 \<and> fdiv (fadd (fdiv (fsub b r) d) 2) 6 \<le> 1"
    by (simp add: hue_fraction [where lo = 1 and hi = 3] fl_exact)
  from fdiv_signed [OF q(3)] have "3 \<le> fdiv (fsub r g) d + 4" "fdiv (fsub r g) d + 4 \<le> 5"
    by simp_all
  then show "0 \<le> fdiv (fadd (fdiv (fsub r g) d) 4) 6 \<and> fdiv (fadd (fdiv (fsub r g) d) 4) 6 \<le> 1"
    by (simp add: hue_fraction [where lo = 3 and hi = 5] fl_exact)
qed

lemma channel_unit:
  assumes "0 \<le> k" "k \<le> 255"
  shows "0 \<le> fdiv (of_int k) 255 \<and> fdiv (of_int k) 255 \<le> 1"
  using assms by (intro fdiv_ratio) simp_all

lemma if_unit:
  "(c \<Longrightarrow> 0 \<le> x \<and> x \<le> 1) \<Longrightarrow> (\<not> c \<Longrightarrow> 0 \<le> y \<and> y \<le> 1) \<Longrightarrow>
     0 \<le> (if c then x else y) \<and> (if c then x else y) \<le> (1::rat)"
  by simp

lemma rgbToHsl_bounds:
  assumes "0 \<le> r" "r \<le> 255" "0 \<le> g" "g \<le> 255" "0 \<le> b" "b \<le> 255"
  shows "0 \<le> hsl_h (rgbToHsl (of_int r) (of_int g) (of_int b)) \<and>
         hsl_h (rgbToHsl (of_int r) (of_int g) (of_int b)) \<le> 360 \<and>
         0 \<le> hsl_s (rgbToHsl (of_int r) (of_int g) (of_int b)) \<and>
         hsl_s (rgbToHsl (of_int r) (of_int g) (of_int b)) \<le> 100 \<and>
         0 \<le> hsl_l (rgbToHsl (of_int r) (of_int g) (of_int b)) \<and>
         hsl_l (rgbToHsl (of_int r) (of_int g) (of_int b)) \<le> 100"
proof -
  define rn gn bn where "rn = fdiv (of_int r) 255" and "gn = fdiv (of_int g) 255"
    and "bn = fdiv (of_int b) 255"
  define mx mn where "mx = max (max rn gn) bn" and "mn = min (min rn gn) bn"
  define l d where "l = fdiv (fadd mx mn) 2" and "d = fsub mx mn"
  define s where "s = (if mx \<noteq> mn
      then (if 1 / 2 < l then fdiv d (fsub (fsub 2 mx) mn) else fdiv d (fadd mx mn)) else 0)"
  define h where "h = (if mx \<noteq> mn
      then (if mx = rn then fdiv (fadd (fdiv (fsub gn bn) d) (if gn < bn then 6 else 0)) 6
            else if mx = gn then fdiv (fadd (fdiv (fsub bn rn) d) 2) 6
            else if mx = bn then fdiv (fadd (fdiv (fsub rn gn) d) 4) 6
            else 0)
      else 0)"
  have eq: "rgbToHsl (of_int r) (of_int g) (of_int b) =
      \<lparr>hsl_h = js_round (fmul h 360), hsl_s = js_round (fmul s 100),
       hsl_l = js_round (fmul l 100)\<rparr>"
    unfolding rgbToHsl_def Let_def h_def s_def l_def d_def mx_def mn_def rn_def gn_def bn_def ..
  have u: "0 \<le> rn" "rn \<le> 1" "0 \<le> gn" "gn \<le> 1" "0 \<le> bn" "bn \<le> 1"
    using channel_unit [OF assms(1,2)] channel_unit [OF assms(3,4)] channel_unit [OF assms(5,6)]
    by (simp_all add: rn_def gn_def bn_def)
  note R = rgbToHsl_unit_range [OF u, folded mx_def mn_def, folded d_def]
  have z: "0 \<le> (0::rat) \<and> (0::rat) \<le> 1" by simp
  have lu: "0 \<le> l \<and> l \<le> 1" unfolding l_def by (rule R(1))
  have su: "0 \<le> s \<and> s \<le> 1" unfolding s_def by (intro if_unit R(2) R(3) z)
  have hu: "0 \<le> h \<and> h \<le> 1" unfolding h_def by (intro if_unit R(4) R(5) R(6) z)
  show ?thesis
    unfolding eq hsl.simps
    using js_round_scaled [of h 360] js_round_scaled [of s 100] js_round_scaled [of l 100]
      lu su hu
    by (simp add: fl_exact)
qed


text \<open>
  C3 (amended): for every RGB triple of integers in \<open>[0, 255]\<close>, the hue of
  \<^verbatim>\<open>rgbToHsl\<close> is an integer in the closed range \<open>[0, 360]\<close>, and saturation and lightness
  are integers in \<open>[0, 100]\<close>.
\<close>

theorem rgbToHsl_range:
  assumes "0 \<le> r" "r \<le> 255" "0 \<le> g" "g \<le> 255" "0 \<le> b" "b \<le> 255"
  shows "0 \<le> hsl_h (rgbToHsl (of_int r) (of_int g) (of_int b)) \<and>
         hsl_h (rgbToHsl (of_int r) (of_int g) (of_int b)) \<le> 360 \<and>
         0 \<le> hsl_s (rgbToHsl (of_int r) (of_int g) (of_int b)) \<and>
         hsl_s (rgbToHsl (of_int r) (of_int g) (of_int b)) \<le> 100 \<and>
         0 \<le> hsl_l (rgbToHsl (of_int r) (of_int g) (of_int b)) \<and>
         hsl_l (rgbToHsl (of_int r) (of_int g) (of_int b)) \<le> 100"
  using assms by (rule rgbToHsl_bounds)

text \<open>
  The two divisors that \<^verbatim>\<open>rgbToHsl\<close> computes are nonzero on integer channels in
  \<open>[0, 255]\<close>: two channels that differ after the division by 255 differ by more than
  \<open>1 / 256\<close>.
\<close>

lemma channel_err:
  assumes "0 \<le> k" "k \<le> 255"
  shows "of_int k / 255 - 1 / 9007199254740992 \<le> fdiv (of_int k) 255"
    and "fdiv (of_int k) 255 \<le> of_int k / 255 + 1 / 9007199254740992"
proof -
  have "\<bar>of_int k / 255 :: rat\<bar> \<le> pow2 0" using assms by (simp add: pow2_def)
  from fl_err [OF this] have "\<bar>fl (of_int k / 255) - of_int k / 255\<bar> \<le> pow2 (- 53)" by simp
  moreover have "pow2 (- 53) = 1 / 9007199254740992" by (simp add: pow2_def)
  ultimately show "of_int k / 255 - 1 / 9007199254740992 \<le> fdiv (of_int k) 255"
    and "fdiv (of_int k) 255 \<le> of_int k / 255 + 1 / 9007199254740992"
    unfolding fdiv_def by linarith+
qed

lemma channel_gap:
  assumes j: "0 \<le> j" "j \<le> 255" and k: "0 \<le> k" "k \<le> 255"
    and lt: "fdiv (of_int j) 255 < fdiv (of_int k) 255"
  shows "1 / 256 \<le> fdiv (of_int k) 255 - fdiv (of_int j) 255"
proof -
  have "j < k"
  proof (rule ccontr)
    assume "\<not> j < k"
    then have "(of_int k :: rat) / 255 \<le> of_int j / 255" by simp
    then have "fdiv (of_int k) 255 \<le> fdiv (of_int j) 255" unfolding fdiv_def by (rule fl_mono)
    with lt show False by simp
  qed
  then have "j + 1 \<le> k" by simp
  then have "(of_int (j + 1) :: rat) \<le> of_int k" by (simp only: of_int_le_iff)
  then have "(of_int j :: rat) + 1 \<le> of_int k" by simp
  with channel_err(2) [OF j] channel_err(1) [OF k] show ?thesis by linarith
qed

lemma rgbToHsl_divisors:
  assumes "0 \<le> r" "r \<le> 255" "0 \<le> g" "g \<le> 255" "0 \<le> b" "b \<le> 255"
  defines "rn \<equiv> fdiv (of_int r) 255" and "gn \<equiv> fdiv (of_int g) 255"
    and "bn \<equiv> fdiv (of_int b) 255"
  defines "mx \<equiv> max (max rn gn) bn" and "mn \<equiv> min (min rn gn) bn"
  assumes ne: "mx \<noteq> mn"
  shows "0 < fsub mx mn" and "0 < fadd mx mn" and "0 < fsub (fsub 2 mx) mn"
proof -
  have u: "0 \<le> rn" "rn \<le> 1" "0 \<le> gn" "gn \<le> 1" "0 \<le> bn" "bn \<le> 1"
    using channel_unit [OF assms(1,2)] channel_unit [OF assms(3,4)] channel_unit [OF assms(5,6)]
    by (simp_all add: rn_def gn_def bn_def)
  have m: "0 \<le> mn" "mn \<le> mx" "mx \<le> 1" using u by (auto simp: mx_def mn_def)
  with ne have lt: "mn < mx" by simp
  have gap: "1 / 256 \<le> y - x"
    if "x \<in> {rn, gn, bn}" "y \<in> {rn, gn, bn}" "x < y" for x y
  proof -
    from that(1) assms(1-6) obtain j where j: "x = fdiv (of_int j) 255" "0 \<le> j" "j \<le> 255"
      unfolding rn_def gn_def bn_def by blast
    from that(2) assms(1-6) obtain k where k: "y = fdiv (of_int k) 255" "0 \<le> k" "k \<le> 255"
      unfolding rn_def gn_def bn_def by blast
    show ?thesis using that(3) unfolding j(1) k(1) by (intro channel_gap j k)
  qed
  have "mn \<in> {rn, gn, bn}" "mx \<in> {rn, gn, bn}" by (auto simp: mx_def mn_def max_def min_def)
  then have g: "1 / 256 \<le> mx - mn" using lt by (rule gap)
  note e = fl_exact(9)
  from g e have d: "1 / 256 \<le> fsub mx mn" unfolding fsub_def by (rule fl_ge)
  then show "0 < fsub mx mn" by linarith
  have "1 / 256 \<le> mx + mn" using g m by linarith
  then have "1 / 256 \<le> fadd mx mn" using e unfolding fadd_def by (rule fl_ge)
  then show "0 < fadd mx mn" by linarith
  have "mx \<le> fsub 2 mx" using m by (simp add: fsub_def fl_ge [of 1] fl_exact order_trans [of mx 1])
  then have "1 / 256 \<le> fsub 2 mx - mn" using g by linarith
  then have "1 / 256 \<le> fsub (fsub 2 mx) mn" using e unfolding fsub_def by (rule fl_ge)
  then show "0 < fsub (fsub 2 mx) mn" by linarith
qed

text \<open>
  The claim C3 as stated, that the hue is never 360, fails: for \<open>(255, 0, 1)\<close> the hue
  fraction is \<open>(6 - 1 / 255) / 6\<close>, about 359.76 degrees, and \<^verbatim>\<open>Math.round\<close> takes it
  to 360. Nothing wraps the hue after the rounding.
\<close>

theorem hue_below_360_counterexample:
  "hsl_h (rgbToHsl 255 0 1) = 360 \<and> \<not> hsl_h (rgbToHsl 255 0 1) < 360"
proof -
  have "rgbToHsl 255 0 1 = \<lparr>hsl_h = 360, hsl_s = 100, hsl_l = 50\<rparr>"
    apply (simp only: rgbToHsl_def Let_def)
    apply (simp add: fl_eval)
    done
  then show ?thesis by simp
qed

theorem rgbToHsl_range_witness:
  "(0::int) \<le> 255 \<and> (255::int) \<le> 255 \<and> (0::int) \<le> 0 \<and> (0::int) \<le> 255 \<and>
   (0::int) \<le> 1 \<and> (1::int) \<le> 255 \<and>
   0 \<le> hsl_h (rgbToHsl 255 0 1) \<and> hsl_h (rgbToHsl 255 0 1) \<le> 360 \<and>
   0 \<le> hsl_s (rgbToHsl 255 0 1) \<and> hsl_s (rgbToHsl 255 0 1) \<le> 100 \<and>
   0 \<le> hsl_l (rgbToHsl 255 0 1) \<and> hsl_l (rgbToHsl 255 0 1) \<le> 100"
  using rgbToHsl_range [of 255 0 1] by simp

section \<open>The shade ramp and the accent colour\<close>

lemma toHex_digits:
  "toHex x = [hex_digit_char (nat (max 0 (min 255 (js_round x))) div 16),
              hex_digit_char (nat (max 0 (min 255 (js_round x))) mod 16)]"
proof -
  define v where "v = nat (max 0 (min 255 (js_round x)))"
  have "v < 256" by (simp add: v_def)
  then show ?thesis
    unfolding toHex_def v_def [symmetric] Let_def
    by (auto simp: toString16_byte hex_digit_char_def)
qed

lemma rgbToHex_canonical: "canonical (rgbToHex x y z)"
proof -
  have d: "nat (max 0 (min 255 (js_round w))) div 16 < 16"
    "nat (max 0 (min 255 (js_round w))) mod 16 < 16" for w
    by (simp_all add: less_mult_imp_div_less)
  show ?thesis
    by (simp add: rgbToHex_def toHex_digits toUpperCase_Cons upper_hex_digit_char d
        canonical_def upper_digit_props)
qed

lemma hslHex_canonical: "canonical (hslHex h s l)"
  by (simp add: hslHex_def Let_def rgbToHex_canonical)

text \<open>
  C5: for every valid hex input, \<^verbatim>\<open>generateShades\<close> returns exactly 12 hex strings; the
  \<open>k\<close>-th is \<^verbatim>\<open>rgbToHex\<close> of \<^verbatim>\<open>hslToRgb(h, s, L)\<close>, with \<open>h\<close> and \<open>s\<close> the hue and saturation
  that \<^verbatim>\<open>rgbToHsl\<close> gives for the decoded input and \<open>L\<close> the \<open>k\<close>-th entry of the schedule
  95, 85, 75, 65, 55, 45, 35, 25, 20, 15, 10, 5, in this order. Each is canonical.
\<close>

theorem generateShades_schedule:
  assumes "normalizeHex s = Some n"
  shows "\<exists>c. hexToRgb s = Some c \<and>
    (let hsl = rgbToHsl (of_int (rgb_r c)) (of_int (rgb_g c)) (of_int (rgb_b c));
         h = of_int (hsl_h hsl); sa = of_int (hsl_s hsl)
     in generateShades s =
          [hslHex h sa 95, hslHex h sa 85, hslHex h sa 75, hslHex h sa 65,
           hslHex h sa 55, hslHex h sa 45, hslHex h sa 35, hslHex h sa 25,
           hslHex h sa 20, hslHex h sa 15, hslHex h sa 10, hslHex h sa 5]) \<and>
    length (generateShades s) = 12 \<and> list_all canonical (generateShades s)"
proof -
  from hexToRgb_Some [OF assms] obtain c where c: "hexToRgb s = Some c" by blast
  then show ?thesis
    by (simp add: generateShades_def lightnessValues_def hslHex_def Let_def rgbToHex_canonical)
qed


theorem generateShades_schedule_witness:
  "normalizeHex (js ''#3B82F6'') = Some (js ''#3B82F6'') \<and>
   hexToRgb (js ''#3B82F6'') = Some \<lparr>rgb_r = 59, rgb_g = 130, rgb_b = 246\<rparr> \<and>
   length (generateShades (js ''#3B82F6'')) = 12 \<and>
   list_all canonical (generateShades (js ''#3B82F6''))"
proof -
  have a: "normalizeHex (js ''#3B82F6'') = Some (js ''#3B82F6'')"
    by (simp add: normalizeHex_def str_eval)
  have b: "hexToRgb (js ''#3B82F6'') = Some \<lparr>rgb_r = 59, rgb_g = 130, rgb_b = 246\<rparr>"
    by (simp add: hexToRgb_def a) (simp add: str_eval parseInt16_def digit_value_def)
  from generateShades_schedule [OF a] a b show ?thesis by blast
qed

lemma js_rem_nonneg: "0 \<le> a \<Longrightarrow> 0 < n \<Longrightarrow> js_rem a n = a mod n"
  by (cases "a = 0") (simp_all add: js_rem_def)

lemma palette_accent:
  assumes "hexToRgb s = Some c"
  shows "generatePaletteFromBase s ! 1 =
    (let hsl = rgbToHsl (of_int (rgb_r c)) (of_int (rgb_g c)) (of_int (rgb_b c))
     in \<lparr>entry_hex = hslHex (of_int (js_rem (hsl_h hsl + 180) 360))
                         (of_int (hsl_s hsl)) (of_int (hsl_l hsl)),
         entry_label = js ''Accent'', entry_role = Accent\<rparr>)"
  using assms by (simp add: generatePaletteFromBase_def Let_def)

lemma rgbToHsl_red: "rgbToHsl 255 0 0 = \<lparr>hsl_h = 0, hsl_s = 100, hsl_l = 50\<rparr>"
  apply (simp only: rgbToHsl_def Let_def)
  apply (simp add: fl_eval)
  done

lemma hslToRgb_cyan: "hslToRgb 180 100 50 = \<lparr>rgb_r = 0, rgb_g = 255, rgb_b = 255\<rparr>"
  apply (simp only: hslToRgb_def hue2rgb_def Let_def)
  apply (simp add: fl_eval)
  done

lemma hexToRgb_red: "hexToRgb (js ''#FF0000'') = Some \<lparr>rgb_r = 255, rgb_g = 0, rgb_b = 0\<rparr>"
proof -
  have "normalizeHex (js ''#FF0000'') = Some (js ''#FF0000'')"
    by (simp add: normalizeHex_def str_eval)
  then show ?thesis
    by (simp add: hexToRgb_def) (simp add: str_eval parseInt16_def digit_value_def)
qed

lemma accent_red: "entry_hex (generatePaletteFromBase (js ''#FF0000'') ! 1) = js ''#00FFFF''"
proof -
  have "rgbToHex 0 255 255 = js ''#00FFFF''"
    using rgbToHex_bytes [of 0 255 255] by (simp add: upper_digit_def js_def)
  then show ?thesis
    unfolding palette_accent [OF hexToRgb_red]
    by (simp add: rgbToHsl_red js_rem_def hslHex_def hslToRgb_cyan)
qed

text \<open>
  C6: for every valid hex input, decoded to HSL \<open>(h, s, l)\<close>, the second entry of
  \<^verbatim>\<open>generatePaletteFromBase\<close> has role accent and its hex is that of
  \<^verbatim>\<open>hslToRgb((h + 180) mod 360, s, l)\<close>; for the base \<^verbatim>\<open>#FF0000\<close>, whose HSL is
  \<open>(0, 100, 50)\<close>, the accent is exactly \<^verbatim>\<open>#00FFFF\<close>.
\<close>

theorem accent_is_complement:
  assumes "normalizeHex s = Some n"
  shows "(\<exists>c. hexToRgb s = Some c \<and>
      (let hsl = rgbToHsl (of_int (rgb_r c)) (of_int (rgb_g c)) (of_int (rgb_b c))
       in entry_role (generatePaletteFromBase s ! 1) = Accent \<and>
          entry_hex (generatePaletteFromBase s ! 1) =
            hslHex (of_int ((hsl_h hsl + 180) mod 360)) (of_int (hsl_s hsl)) (of_int (hsl_l hsl)))) \<and>
    rgbToHsl 255 0 0 = \<lparr>hsl_h = 0, hsl_s = 100, hsl_l = 50\<rparr> \<and>
    entry_hex (generatePaletteFromBase (js ''#FF0000'') ! 1) = js ''#00FFFF''"
proof -
  from hexToRgb_Some [OF assms] obtain c where c: "hexToRgb s = Some c"
    and rng: "0 \<le> rgb_r c" "rgb_r c \<le> 255" "0 \<le> rgb_g c" "rgb_g c \<le> 255"
      "0 \<le> rgb_b c" "rgb_b c \<le> 255"
    by blast
  define hsl where "hsl = rgbToHsl (of_int (rgb_r c)) (of_int (rgb_g c)) (of_int (rgb_b c))"
  have "0 \<le> hsl_h hsl" using rgbToHsl_bounds [OF rng] by (simp add: hsl_def)
  then have "js_rem (hsl_h hsl + 180) 360 = (hsl_h hsl + 180) mod 360"
    by (simp add: js_rem_nonneg)
  then have "entry_role (generatePaletteFromBase s ! 1) = Accent \<and>
      entry_hex (generatePaletteFromBase s ! 1) =
        hslHex (of_int ((hsl_h hsl + 180) mod 360)) (of_int (hsl_s hsl)) (of_int (hsl_l hsl))"
    unfolding palette_accent [OF c] by (simp add: hsl_def Let_def)
  then show ?thesis using c rgbToHsl_red accent_red by (simp add: hsl_def Let_def)
qed

theorem accent_is_complement_witness:
  "normalizeHex (js ''#FF0000'') = Some (js ''#FF0000'') \<and>
   hexToRgb (js ''#FF0000'') = Some \<lparr>rgb_r = 255, rgb_g = 0, rgb_b = 0\<rparr> \<and>
   entry_role (generatePaletteFromBase (js ''#FF0000'') ! 1) = Accent \<and>
   entry_hex (generatePaletteFromBase (js ''#FF0000'') ! 1) = hslHex 180 100 50 \<and>
   hslHex 180 100 50 = js ''#00FFFF''"
proof -
  have a: "normalizeHex (js ''#FF0000'') = Some (js ''#FF0000'')"
    by (simp add: normalizeHex_def str_eval)
  from accent_is_complement [OF a] obtain c where c: "hexToRgb (js ''#FF0000'') = Some c"
    and l: "let hsl = rgbToHsl (of_int (rgb_r c)) (of_int (rgb_g c)) (of_int (rgb_b c))
       in entry_role (generatePaletteFromBase (js ''#FF0000'') ! 1) = Accent \<and>
          entry_hex (generatePaletteFromBase (js ''#FF0000'') ! 1) =
            hslHex (of_int ((hsl_h hsl + 180) mod 360)) (of_int (hsl_s hsl)) (of_int (hsl_l hsl))"
    and t: "rgbToHsl 255 0 0 = \<lparr>hsl_h = 0, hsl_s = 100, hsl_l = 50\<rparr>"
    and f: "entry_hex (generatePaletteFromBase (js ''#FF0000'') ! 1) = js ''#00FFFF''"
    by blast
  from c have c': "c = \<lparr>rgb_r = 255, rgb_g = 0, rgb_b = 0\<rparr>" by (simp add: hexToRgb_red)
  from l have r: "entry_role (generatePaletteFromBase (js ''#FF0000'') ! 1) = Accent"
    and e': "entry_hex (generatePaletteFromBase (js ''#FF0000'') ! 1) = hslHex 180 100 50"
    unfolding c' Let_def by (simp_all add: t)
  from e' f have "hslHex 180 100 50 = js ''#00FFFF''" by simp
  with a hexToRgb_red r e' show ?thesis by simp
qed

section \<open>Brightness classification\<close>


lemma fl_err_512:
  assumes "\<bar>x\<bar> \<le> 512"
  shows "\<bar>fl x - x\<bar> \<le> 1 / 17592186044416"
proof -
  have "\<bar>x\<bar> \<le> pow2 9" using assms by (simp add: pow2_def)
  from fl_err [OF this] have "\<bar>fl x - x\<bar> \<le> pow2 (- 44)" by simp
  moreover have "pow2 (- 44) = 1 / 17592186044416" by (simp add: pow2_def)
  ultimately show ?thesis by simp
qed

















section \<open>The round trip through HSL\<close>

lemma js_round_0 [simp]: "js_round 0 = 0"
  using js_round_of_int [of 0] by simp

lemma rgbToHsl_gray:
  "rgbToHsl v v v =
     \<lparr>hsl_h = 0, hsl_s = 0,
      hsl_l = js_round (fmul (fdiv (fadd (fdiv v 255) (fdiv v 255)) 2) 100)\<rparr>"
  by (simp add: rgbToHsl_def Let_def fmul_def)

lemma hslToRgb_gray:
  "hslToRgb 0 0 l =
     \<lparr>rgb_r = js_round (fmul (fdiv l 100) 255),
      rgb_g = js_round (fmul (fdiv l 100) 255),
      rgb_b = js_round (fmul (fdiv l 100) 255)\<rparr>"
  by (simp add: hslToRgb_def Let_def fdiv_def)

lemma js_round_bounds: "of_int (js_round x) \<le> x + 1 / 2" "x - 1 / 2 < of_int (js_round x)"
  unfolding js_round_def using floor_correct [of "x + 1 / 2"] by linarith+

lemma gray_roundtrip:
  assumes "0 \<le> v" "v \<le> 255"
  defines "L \<equiv> js_round (fmul (fdiv (fadd (fdiv (of_int v) 255) (fdiv (of_int v) 255)) 2) 100)"
  shows "\<bar>js_round (fmul (fdiv (of_int L) 100) 255) - v\<bar> \<le> 1"
proof -
  define V :: rat where "V = of_int v"
  have V: "0 \<le> V" "V \<le> 255" using assms by (simp_all add: V_def)
  define rn where "rn = fl (V / 255)"
  define a where "a = fl (rn + rn)"
  define l where "l = fl (a / 2)"
  define m where "m = fl (l * 100)"
  have L: "L = js_round m"
    by (simp only: L_def m_def l_def a_def rn_def V_def fmul_def fdiv_def fadd_def)
  define l' where "l' = fl (of_int L / 100)"
  define p where "p = fl (l' * 255)"
  define out where "out = js_round p"
  have out: "js_round (fmul (fdiv (of_int L) 100) 255) = out"
    by (simp only: out_def p_def l'_def fmul_def fdiv_def)
  have e1: "\<bar>rn - V / 255\<bar> \<le> 1 / 17592186044416"
    unfolding rn_def using V by (intro fl_err_512) (simp add: abs_le_iff)
  have e2: "\<bar>a - (rn + rn)\<bar> \<le> 1 / 17592186044416"
    unfolding a_def using V e1 by (intro fl_err_512) linarith
  have "\<bar>a\<bar> \<le> 512" using V e1 e2 by linarith
  then have "\<bar>a / 2\<bar> \<le> 512" by simp
  then have e3: "\<bar>l - a / 2\<bar> \<le> 1 / 17592186044416"
    unfolding l_def by (rule fl_err_512)
  have "\<bar>l\<bar> \<le> 2" using V e1 e2 e3 by linarith
  then have "\<bar>l * 100\<bar> \<le> 512" by (simp add: abs_mult)
  then have e4: "\<bar>m - l * 100\<bar> \<le> 1 / 17592186044416"
    unfolding m_def by (rule fl_err_512)
  note r1 = js_round_bounds [of m, folded L]
  have mb: "\<bar>m - V * 100 / 255\<bar> \<le> 1 / 1000000000" using V e1 e2 e3 e4 by linarith
  have Lb: "\<bar>of_int L :: rat\<bar> \<le> 101" using V mb r1 by linarith
  then have "\<bar>of_int L / 100 :: rat\<bar> \<le> 512" by simp
  then have e5: "\<bar>l' - of_int L / 100\<bar> \<le> 1 / 17592186044416"
    unfolding l'_def by (rule fl_err_512)
  have "\<bar>l'\<bar> \<le> 2" using Lb e5 by linarith
  then have "\<bar>l' * 255\<bar> \<le> 512" by (simp add: abs_mult)
  then have e6: "\<bar>p - l' * 255\<bar> \<le> 1 / 17592186044416"
    unfolding p_def by (rule fl_err_512)
  note r2 = js_round_bounds [of p, folded out_def]
  have "(of_int out :: rat) - V < 2" "- 2 < (of_int out :: rat) - V"
    using V mb r1 e5 e6 r2 by linarith+
  then have "(of_int (out - v) :: rat) < of_int 2" "(of_int (- 2) :: rat) < of_int (out - v)"
    by (simp_all add: V_def)
  then have "out - v < 2" "- 2 < out - v" by (simp_all only: of_int_less_iff)
  then show ?thesis unfolding out by simp
qed

text \<open>
  Gray triples take the \<^verbatim>\<open>s === 0\<close> shortcut of \<^verbatim>\<open>hslToRgb\<close> and come back within 1.
\<close>

lemma hslRoundTrip_gray:
  assumes "0 \<le> v" "v \<le> 255"
  shows "\<bar>rgb_r (hslRoundTrip v v v) - v\<bar> \<le> 1 \<and>
         \<bar>rgb_g (hslRoundTrip v v v) - v\<bar> \<le> 1 \<and>
         \<bar>rgb_b (hslRoundTrip v v v) - v\<bar> \<le> 1"
  using gray_roundtrip [OF assms]
  by (simp add: hslRoundTrip_def rgbToHsl_gray hslToRgb_gray Let_def)

lemma rgbToHsl_dark_red: "rgbToHsl 3 0 0 = \<lparr>hsl_h = 0, hsl_s = 100, hsl_l = 1\<rparr>"
  apply (simp only: rgbToHsl_def Let_def)
  apply (simp add: fl_eval)
  done

lemma hslToRgb_dark_red: "hslToRgb 0 100 1 = \<lparr>rgb_r = 5, rgb_g = 0, rgb_b = 0\<rparr>"
  apply (simp only: hslToRgb_def hue2rgb_def Let_def)
  apply (simp add: fl_eval)
  done

lemma rgbToHsl_teal: "rgbToHsl 2 228 230 = \<lparr>hsl_h = 181, hsl_s = 98, hsl_l = 45\<rparr>"
  apply (simp only: rgbToHsl_def Let_def)
  apply (simp add: fl_eval)
  done

lemma hslToRgb_teal: "hslToRgb 181 98 45 = \<lparr>rgb_r = 2, rgb_g = 223, rgb_b = 227\<rparr>"
  apply (simp only: hslToRgb_def hue2rgb_def Let_def)
  apply (simp add: fl_eval)
  done

lemma hslRoundTrip_teal: "hslRoundTrip 2 228 230 = \<lparr>rgb_r = 2, rgb_g = 223, rgb_b = 227\<rparr>"
  by (simp add: hslRoundTrip_def rgbToHsl_teal hslToRgb_teal)

subsection \<open>The decoder against its exact counterpart\<close>

lemma hueShape_range:
  assumes "- 1 / 2 \<le> t" "t \<le> 3 / 2"
  shows "0 \<le> hueShape t" "hueShape t \<le> 1"
  using assms by (auto simp: hueShape_def shape_def wrap01_def)

lemma hueShape_lipschitz_le:
  assumes "- 1 / 2 \<le> a" "a \<le> b" "b \<le> 3 / 2"
  shows "\<bar>hueShape a - hueShape b\<bar> \<le> 6 * (b - a)"
  using assms by (auto simp: hueShape_def shape_def wrap01_def abs_le_iff)

lemma hueShape_lipschitz:
  assumes "- 1 / 2 \<le> a" "a \<le> 3 / 2" "- 1 / 2 \<le> b" "b \<le> 3 / 2"
  shows "\<bar>hueShape a - hueShape b\<bar> \<le> 6 * \<bar>a - b\<bar>"
proof (cases "a \<le> b")
  case True
  then show ?thesis using hueShape_lipschitz_le [of a b] assms by simp
next
  case False
  then show ?thesis using hueShape_lipschitz_le [of b a] assms by (simp add: abs_minus_commute)
qed


lemma hueShape_close:
  assumes "- 1 / 2 \<le> a" "a \<le> 3 / 2" "- 1 / 2 \<le> b" "b \<le> 3 / 2" "\<bar>a - b\<bar> \<le> e"
  shows "\<bar>hueShape a - hueShape b\<bar> \<le> 6 * e"
proof -
  have "\<bar>hueShape a - hueShape b\<bar> \<le> 6 * \<bar>a - b\<bar>"
    using assms(1-4) by (rule hueShape_lipschitz)
  also have "\<dots> \<le> 6 * e" using assms(5) by simp
  finally show ?thesis .
qed

lemma abs_mult_le:
  fixes a b :: rat
  assumes "\<bar>a\<bar> \<le> A" "\<bar>b\<bar> \<le> B"
  shows "\<bar>a * b\<bar> \<le> A * B"
  unfolding abs_mult using assms by (intro mult_mono) simp_all

lemma prod_err:
  fixes a b :: rat
  assumes "\<bar>a - a'\<bar> \<le> ea" "\<bar>b - b'\<bar> \<le> eb" "\<bar>a'\<bar> \<le> A" "\<bar>b\<bar> \<le> B"
  shows "\<bar>a * b - a' * b'\<bar> \<le> ea * B + A * eb"
proof -
  have "a * b - a' * b' = (a - a') * b + a' * (b - b')" by (simp add: algebra_simps)
  moreover have "\<bar>(a - a') * b\<bar> \<le> ea * B" using assms(1,4) by (rule abs_mult_le)
  moreover have "\<bar>a' * (b - b')\<bar> \<le> A * eb" using assms(3,2) by (rule abs_mult_le)
  ultimately show ?thesis by linarith
qed

lemma fadd_err: "\<bar>a + b\<bar> \<le> 512 \<Longrightarrow> \<bar>fadd a b - (a + b)\<bar> \<le> 1 / 17592186044416"
  unfolding fadd_def by (rule fl_err_512)

lemma fsub_err: "\<bar>a - b\<bar> \<le> 512 \<Longrightarrow> \<bar>fsub a b - (a - b)\<bar> \<le> 1 / 17592186044416"
  unfolding fsub_def by (rule fl_err_512)

lemma fmul_err:
  assumes "\<bar>a\<bar> \<le> A" "\<bar>b\<bar> \<le> B" "A * B \<le> 512"
  shows "\<bar>fmul a b - a * b\<bar> \<le> 1 / 17592186044416"
proof -
  have "\<bar>a * b\<bar> \<le> A * B" using assms(1,2) by (rule abs_mult_le)
  then have "\<bar>a * b\<bar> \<le> 512" using assms(3) by simp
  then show ?thesis unfolding fmul_def by (rule fl_err_512)
qed

lemma fdiv_err: "\<bar>a / b\<bar> \<le> 512 \<Longrightarrow> \<bar>fdiv a b - a / b\<bar> \<le> 1 / 17592186044416"
  unfolding fdiv_def by (rule fl_err_512)

lemma hue_ramp_up:
  assumes "\<bar>p\<bar> \<le> 2" "\<bar>q\<bar> \<le> 2" "\<bar>t\<bar> \<le> 2"
  shows "\<bar>fadd p (fmul (fmul (fsub q p) 6) t) - (p + (q - p) * (6 * t))\<bar> \<le> 1 / 100000000000"
proof -
  define w where "w = q - p"
  define D where "D = fsub q p"
  define a2 where "a2 = fmul D 6"
  define a3 where "a3 = fmul a2 t"
  have w: "\<bar>w\<bar> \<le> 4" using assms unfolding w_def by linarith
  have e1: "\<bar>D - w\<bar> \<le> 1 / 17592186044416"
    unfolding D_def w_def using assms by (intro fsub_err) linarith
  have D: "\<bar>D\<bar> \<le> 5" using e1 w by linarith
  have e2: "\<bar>a2 - D * 6\<bar> \<le> 1 / 17592186044416"
    unfolding a2_def using D by (rule fmul_err [where B = 6]) simp_all
  have a2: "\<bar>a2\<bar> \<le> 31" using e2 D by linarith
  have e3: "\<bar>a3 - a2 * t\<bar> \<le> 1 / 17592186044416"
    unfolding a3_def using a2 assms(3) by (rule fmul_err) simp
  have "\<bar>a2 - w * 6\<bar> \<le> 7 / 17592186044416" using e1 e2 by linarith
  moreover have "\<bar>t - t\<bar> \<le> 0" by simp
  moreover have "\<bar>w * 6\<bar> \<le> 24" using w by linarith
  ultimately have "\<bar>a2 * t - w * 6 * t\<bar> \<le> 7 / 17592186044416 * 2 + 24 * 0"
    using assms(3) by (rule prod_err)
  then have e4: "\<bar>a2 * t - w * (6 * t)\<bar> \<le> 14 / 17592186044416"
    by (simp add: mult.assoc)
  have "\<bar>a2 * t\<bar> \<le> 31 * 2" using a2 assms(3) by (rule abs_mult_le)
  then have "\<bar>p + a3\<bar> \<le> 512" using e3 assms by linarith
  then have e5: "\<bar>fadd p a3 - (p + a3)\<bar> \<le> 1 / 17592186044416" by (rule fadd_err)
  show ?thesis
    unfolding D_def [symmetric] a2_def [symmetric] a3_def [symmetric] w_def [symmetric]
    using e3 e4 e5 by linarith
qed

lemma hue_ramp_down:
  assumes "\<bar>p\<bar> \<le> 2" "\<bar>q\<bar> \<le> 2" "\<bar>t\<bar> \<le> 2" "\<bar>c - 2 / 3\<bar> \<le> 1 / 17592186044416"
  shows "\<bar>fadd p (fmul (fmul (fsub q p) (fsub c t)) 6) - (p + (q - p) * ((2 / 3 - t) * 6))\<bar>
    \<le> 1 / 100000000000"
proof -
  define w where "w = q - p"
  define v where "v = 2 / 3 - t"
  define D where "D = fsub q p"
  define u where "u = fsub c t"
  define a2 where "a2 = fmul D u"
  define a3 where "a3 = fmul a2 6"
  have w: "\<bar>w\<bar> \<le> 4" using assms unfolding w_def by linarith
  have e1: "\<bar>D - w\<bar> \<le> 1 / 17592186044416"
    unfolding D_def w_def using assms by (intro fsub_err) linarith
  have D: "\<bar>D\<bar> \<le> 5" using e1 w by linarith
  have "\<bar>u - (c - t)\<bar> \<le> 1 / 17592186044416"
    unfolding u_def using assms by (intro fsub_err) linarith
  then have eu: "\<bar>u - v\<bar> \<le> 2 / 17592186044416" using assms(4) unfolding v_def by linarith
  have u: "\<bar>u\<bar> \<le> 3" using eu assms(3) unfolding v_def by linarith
  have e2: "\<bar>a2 - D * u\<bar> \<le> 1 / 17592186044416"
    unfolding a2_def using D u by (rule fmul_err) simp
  from e1 eu w u have "\<bar>D * u - w * v\<bar>
      \<le> 1 / 17592186044416 * 3 + 4 * (2 / 17592186044416)"
    by (rule prod_err)
  then have e3: "\<bar>a2 - w * v\<bar> \<le> 12 / 17592186044416" using e2 by linarith
  have "\<bar>D * u\<bar> \<le> 5 * 3" using D u by (rule abs_mult_le)
  then have a2: "\<bar>a2\<bar> \<le> 16" using e2 by linarith
  have e4: "\<bar>a3 - a2 * 6\<bar> \<le> 1 / 17592186044416"
    unfolding a3_def using a2 by (rule fmul_err [where B = 6]) simp_all
  have "\<bar>p + a3\<bar> \<le> 512" using e4 a2 assms by linarith
  then have e5: "\<bar>fadd p a3 - (p + a3)\<bar> \<le> 1 / 17592186044416" by (rule fadd_err)
  define wv where "wv = w * v"
  have "(q - p) * ((2 / 3 - t) * 6) = wv * 6" by (simp add: wv_def w_def v_def)
  then show ?thesis
    unfolding D_def [symmetric] u_def [symmetric] a2_def [symmetric] a3_def [symmetric]
    using e3 e4 e5 unfolding wv_def [symmetric] by linarith
qed


lemma shape_unit:
  assumes "0 \<le> t" "t \<le> 1"
  shows "0 \<le> shape t" "shape t \<le> 1"
  using assms by (auto simp: shape_def)

lemma shape_alt:
  "shape t = (if t < 1 / 6 then 6 * t else if t < 1 / 2 then 1
              else if t < 2 / 3 then 4 - 6 * t else 0)"
  by (simp add: shape_def algebra_simps)

lemma hue_thresholds:
  "\<bar>fdiv 1 6 - 1 / 6\<bar> \<le> 1 / 17592186044416"
  "fdiv 1 2 = 1 / 2"
  "\<bar>fdiv 2 3 - 2 / 3\<bar> \<le> 1 / 17592186044416"
  "\<bar>fdiv 1 3 - 1 / 3\<bar> \<le> 1 / 17592186044416"
proof -
  show "\<bar>fdiv 1 6 - 1 / 6\<bar> \<le> 1 / 17592186044416" by (rule fdiv_err) simp
  show "fdiv 1 2 = 1 / 2" by (simp add: fl_eval)
  show "\<bar>fdiv 2 3 - 2 / 3\<bar> \<le> 1 / 17592186044416" by (rule fdiv_err) simp
  show "\<bar>fdiv 1 3 - 1 / 3\<bar> \<le> 1 / 17592186044416" by (rule fdiv_err) simp
qed

lemma hue2rgb_approx:
  assumes "\<bar>p\<bar> \<le> 2" "\<bar>q\<bar> \<le> 2" "- 1 / 2 \<le> t0" "t0 \<le> 3 / 2"
  shows "\<bar>hue2rgb p q t0 - (p + (q - p) * hueShape t0)\<bar> \<le> 1 / 1000000000"
proof -
  define t1 where "t1 = (if t0 < 0 then fadd t0 1 else t0)"
  define t where "t = (if 1 < t1 then fsub t1 1 else t1)"
  define W where "W = wrap01 t0"
  define c6 c23 where "c6 = fdiv 1 6" and "c23 = fdiv 2 3"
  note th = hue_thresholds(1,3) [folded c6_def c23_def]
  have W: "0 \<le> W" "W \<le> 1" using assms(3,4) by (auto simp: W_def wrap01_def)
  have tw: "\<bar>t - W\<bar> \<le> 1 / 17592186044416"
  proof (cases "t0 < 0")
    case True
    have "fadd t0 1 \<le> 1" unfolding fadd_def using True by (intro fl_le fl_exact) simp
    then have "t = fadd t0 1" using True by (simp add: t_def t1_def)
    moreover have "\<bar>fadd t0 1 - (t0 + 1)\<bar> \<le> 1 / 17592186044416"
      using assms(3) True by (intro fadd_err) linarith
    ultimately show ?thesis using True by (simp add: W_def wrap01_def)
  next
    case False
    show ?thesis
    proof (cases "1 < t0")
      case True
      have "\<bar>fsub t0 1 - (t0 - 1)\<bar> \<le> 1 / 17592186044416"
        using assms(4) True by (intro fsub_err) linarith
      then show ?thesis using True False by (simp add: t_def t1_def W_def wrap01_def)
    next
      case F2: False
      then show ?thesis using False by (simp add: t_def t1_def W_def wrap01_def)
    qed
  qed
  have t: "\<bar>t\<bar> \<le> 2" using tw W by linarith
  define w where "w = q - p"
  have w: "\<bar>w\<bar> \<le> 4" using assms(1,2) unfolding w_def by linarith
  define G where "G = (if t < c6 then 6 * t else if t < 1 / 2 then 1
                       else if t < c23 then 4 - 6 * t else 0)"
  have GF: "\<bar>G - shape W\<bar> \<le> 20 / 17592186044416"
    unfolding G_def shape_alt using tw W th
    by (simp only: split: if_split) (intro conjI impI; linarith)
  have val: "\<bar>hue2rgb p q t0 - (p + w * G)\<bar> \<le> 1 / 100000000000"
  proof -
    have h: "hue2rgb p q t0 =
        (if t < c6 then fadd p (fmul (fmul (fsub q p) 6) t)
         else if t < 1 / 2 then q
         else if t < c23 then fadd p (fmul (fmul (fsub q p) (fsub c23 t)) 6)
         else p)"
      by (simp only: hue2rgb_def Let_def t_def t1_def c6_def c23_def hue_thresholds(2))
    have eq: "(2 / 3 - t) * 6 = 4 - 6 * t" by (simp add: algebra_simps)
    note ru = hue_ramp_up [OF assms(1,2) t]
    note rd = hue_ramp_down [OF assms(1,2) t th(2), unfolded eq]
    show ?thesis
      unfolding h G_def w_def
      by (simp only: split: if_split) (intro conjI impI; (rule ru | rule rd | simp))
  qed
  have "\<bar>w - w\<bar> \<le> 0" by simp
  moreover note GF
  moreover note w
  moreover have "\<bar>G\<bar> \<le> 8"
    using GF shape_unit [OF W] by linarith
  ultimately have "\<bar>w * G - w * shape W\<bar> \<le> 0 * 8 + 4 * (20 / 17592186044416)"
    by (rule prod_err)
  then show ?thesis using val unfolding w_def hueShape_def W_def by linarith
qed


lemma hsl_channel_approx:
  assumes p: "\<bar>p - (l - K)\<bar> \<le> 10 / 17592186044416"
    and q: "\<bar>q - (l + K)\<bar> \<le> 10 / 17592186044416"
    and l: "0 \<le> l" "l \<le> 1" and K: "0 \<le> K" "K \<le> 1 / 2"
    and t0: "\<bar>t0 - t\<bar> \<le> 3 / 17592186044416" and t: "- 1 / 3 \<le> t" "t \<le> 4 / 3"
  shows "\<bar>hue2rgb p q t0 - (l - K + 2 * (K * hueShape t))\<bar> \<le> 2 / 1000000000"
proof -
  have pq: "\<bar>p\<bar> \<le> 2" "\<bar>q\<bar> \<le> 2" using p q l K by linarith+
  have r0: "- 1 / 2 \<le> t0" "t0 \<le> 3 / 2" using t0 t by linarith+
  have r: "- 1 / 2 \<le> t" "t \<le> 3 / 2" using t by linarith+
  define w where "w = q - p"
  define F0 F where "F0 = hueShape t0" and "F = hueShape t"
  have a: "\<bar>hue2rgb p q t0 - (p + w * F0)\<bar> \<le> 1 / 1000000000"
    unfolding w_def F0_def using pq r0 by (rule hue2rgb_approx)
  have "\<bar>F0 - F\<bar> \<le> 6 * (3 / 17592186044416)"
    unfolding F0_def F_def using r0(1,2) r t0 by (rule hueShape_close)
  then have eF: "\<bar>F0 - F\<bar> \<le> 18 / 17592186044416" by simp
  have F0: "\<bar>F0\<bar> \<le> 1" using hueShape_range [OF r0] unfolding F0_def by linarith
  have ew: "\<bar>w - 2 * K\<bar> \<le> 20 / 17592186044416" using p q unfolding w_def by linarith
  have K2: "\<bar>2 * K\<bar> \<le> 1" using K by linarith
  from ew eF K2 F0 have "\<bar>w * F0 - 2 * K * F\<bar>
      \<le> 20 / 17592186044416 * 1 + 1 * (18 / 17592186044416)"
    by (rule prod_err)
  then have "\<bar>w * F0 - 2 * (K * F)\<bar> \<le> 38 / 17592186044416" by (simp add: mult.assoc)
  then show ?thesis using a p unfolding F_def by linarith
qed

lemma pq_approx:
  assumes l': "0 \<le> l'" "l' \<le> 1" and s': "0 \<le> s'" "s' \<le> 1"
    and el: "\<bar>l' - lq\<bar> \<le> 1 / 17592186044416" and es: "\<bar>s' - sq\<bar> \<le> 1 / 17592186044416"
    and lq: "0 \<le> lq" "lq \<le> 1" and sq: "0 \<le> sq" "sq \<le> 1"
  defines "K \<equiv> sq * min lq (1 - lq)"
  defines "q \<equiv> (if l' < 1 / 2 then fmul l' (fadd 1 s') else fsub (fadd l' s') (fmul l' s'))"
  defines "p \<equiv> fsub (fmul 2 l') q"
  shows "\<bar>q - (lq + K)\<bar> \<le> 10 / 17592186044416" and "\<bar>p - (lq - K)\<bar> \<le> 10 / 17592186044416"
    and "0 \<le> K" and "K \<le> 1 / 2"
proof -
  define m' m where "m' = min l' (1 - l')" and "m = min lq (1 - lq)"
  have em: "\<bar>m' - m\<bar> \<le> 1 / 17592186044416" using el unfolding m'_def m_def by linarith
  have m: "0 \<le> m" "m \<le> 1 / 2" using lq unfolding m_def by linarith+
  have m': "\<bar>m'\<bar> \<le> 1" using l' unfolding m'_def by linarith
  have "\<bar>sq\<bar> \<le> 1" using sq by linarith
  with es em have "\<bar>s' * m' - sq * m\<bar> \<le> 1 / 17592186044416 * 1 + 1 * (1 / 17592186044416)"
    using m' by (rule prod_err)
  then have eK: "\<bar>s' * m' - K\<bar> \<le> 2 / 17592186044416" by (simp add: K_def m_def)
  have "0 \<le> sq * m" using sq m by simp
  then show K0: "0 \<le> K" by (simp add: K_def m_def)
  have "sq * m \<le> 1 * (1 / 2)" using sq m by (intro mult_mono) simp_all
  then show K1: "K \<le> 1 / 2" by (simp add: K_def m_def)
  define KK where "KK = s' * m'"
  have eq: "\<bar>q - (l' + KK)\<bar> \<le> 3 / 17592186044416"
  proof (cases "l' < 1 / 2")
    case True
    define a where "a = fadd 1 s'"
    have ea: "\<bar>a - (1 + s')\<bar> \<le> 1 / 17592186044416"
      unfolding a_def using s' by (intro fadd_err) linarith
    have a: "\<bar>a\<bar> \<le> 3" using ea s' by linarith
    have l1: "\<bar>l'\<bar> \<le> 1" using l' by linarith
    have e2: "\<bar>fmul l' a - l' * a\<bar> \<le> 1 / 17592186044416"
      using l1 a by (rule fmul_err) simp
    have "\<bar>l' - l'\<bar> \<le> 0" by simp
    from this ea l1 a have "\<bar>l' * a - l' * (1 + s')\<bar> \<le> 0 * 3 + 1 * (1 / 17592186044416)"
      by (rule prod_err)
    moreover have "l' * (1 + s') = l' + KK"
      using True by (simp add: KK_def m'_def algebra_simps)
    ultimately have "\<bar>l' * a - (l' + KK)\<bar> \<le> 1 / 17592186044416" by simp
    moreover have "q = fmul l' a" using True by (simp add: q_def a_def)
    ultimately show ?thesis using e2 by linarith
  next
    case False
    define a b where "a = fadd l' s'" and "b = fmul l' s'"
    have ea: "\<bar>a - (l' + s')\<bar> \<le> 1 / 17592186044416"
      unfolding a_def using l' s' by (intro fadd_err) linarith
    have l1: "\<bar>l'\<bar> \<le> 1" "\<bar>s'\<bar> \<le> 1" using l' s' by linarith+
    have eb: "\<bar>b - l' * s'\<bar> \<le> 1 / 17592186044416"
      unfolding b_def using l1 by (rule fmul_err) simp
    have "\<bar>l' * s'\<bar> \<le> 1 * 1" using l1 by (rule abs_mult_le)
    then have "\<bar>a - b\<bar> \<le> 512" using ea eb l' s' by linarith
    then have ec: "\<bar>fsub a b - (a - b)\<bar> \<le> 1 / 17592186044416" by (rule fsub_err)
    define ls where "ls = l' * s'"
    have "KK = s' - ls" using False by (simp add: KK_def m'_def ls_def algebra_simps)
    then have "\<bar>fsub a b - (l' + KK)\<bar> \<le> 3 / 17592186044416"
      using ea eb ec unfolding ls_def [symmetric] by linarith
    moreover have "q = fsub a b" using False by (simp add: q_def a_def b_def)
    ultimately show ?thesis by simp
  qed
  have eKK: "\<bar>KK - K\<bar> \<le> 2 / 17592186044416" using eK by (simp add: KK_def)
  show "\<bar>q - (lq + K)\<bar> \<le> 10 / 17592186044416" using eq eKK el by linarith
  have KKb: "\<bar>KK\<bar> \<le> 1" using eKK K0 K1 by linarith
  define c where "c = fmul 2 l'"
  have "\<bar>(2::rat)\<bar> \<le> 2" by simp
  moreover have "\<bar>l'\<bar> \<le> 1" using l' by linarith
  ultimately have e2: "\<bar>c - 2 * l'\<bar> \<le> 1 / 17592186044416"
    unfolding c_def by (rule fmul_err) simp
  have "\<bar>c - q\<bar> \<le> 512" using e2 eq KKb l' by linarith
  then have "\<bar>fsub c q - (c - q)\<bar> \<le> 1 / 17592186044416" by (rule fsub_err)
  then show "\<bar>p - (lq - K)\<bar> \<le> 10 / 17592186044416"
    using e2 eq eKK el unfolding p_def c_def by linarith
qed


lemma unit_fraction:
  assumes "0 \<le> n" "n \<le> d" "0 < d"
  shows "0 \<le> (of_int n :: rat) / of_int d" "(of_int n :: rat) / of_int d \<le> 1"
  using assms by simp_all

lemma hslToRgb_decodes:
  assumes H: "0 \<le> H" "H \<le> 360" and S: "0 \<le> S" "S \<le> 100" and L: "0 \<le> L" "L \<le> 100"
  defines "hq \<equiv> of_int H / 360" and "sq \<equiv> of_int S / 100" and "lq \<equiv> of_int L / 100"
  shows "\<exists>xr xg xb.
    hslToRgb (of_int H) (of_int S) (of_int L) =
      \<lparr>rgb_r = js_round (fmul xr 255), rgb_g = js_round (fmul xg 255),
       rgb_b = js_round (fmul xb 255)\<rparr> \<and>
    \<bar>xr - hslChannel (hq + 1 / 3) sq lq\<bar> \<le> 1 / 100000000 \<and>
    \<bar>xg - hslChannel hq sq lq\<bar> \<le> 1 / 100000000 \<and>
    \<bar>xb - hslChannel (hq - 1 / 3) sq lq\<bar> \<le> 1 / 100000000"
proof -
  define h' s' l' where "h' = fdiv (of_int H) 360" and "s' = fdiv (of_int S) 100"
    and "l' = fdiv (of_int L) 100"
  define q where "q = (if l' < 1 / 2 then fmul l' (fadd 1 s') else fsub (fadd l' s') (fmul l' s'))"
  define p where "p = fsub (fmul 2 l') q"
  define xr xg xb where "xr = (if s' = 0 then l' else hue2rgb p q (fadd h' (fdiv 1 3)))"
    and "xg = (if s' = 0 then l' else hue2rgb p q h')"
    and "xb = (if s' = 0 then l' else hue2rgb p q (fsub h' (fdiv 1 3)))"
  have eq: "hslToRgb (of_int H) (of_int S) (of_int L) =
      \<lparr>rgb_r = js_round (fmul xr 255), rgb_g = js_round (fmul xg 255),
       rgb_b = js_round (fmul xb 255)\<rparr>"
    unfolding hslToRgb_def Let_def xr_def xg_def xb_def p_def q_def h'_def s'_def l'_def ..
  have hq: "0 \<le> hq" "hq \<le> 1" and sq: "0 \<le> sq" "sq \<le> 1" and lq: "0 \<le> lq" "lq \<le> 1"
    using H S L by (simp_all add: hq_def sq_def lq_def)
  have eh: "\<bar>h' - hq\<bar> \<le> 1 / 17592186044416"
    unfolding h'_def hq_def using hq by (intro fdiv_err) (simp add: hq_def)
  have es: "\<bar>s' - sq\<bar> \<le> 1 / 17592186044416"
    unfolding s'_def sq_def using sq by (intro fdiv_err) (simp add: sq_def)
  have el: "\<bar>l' - lq\<bar> \<le> 1 / 17592186044416"
    unfolding l'_def lq_def using lq by (intro fdiv_err) (simp add: lq_def)
  have h': "0 \<le> h'" "h' \<le> 1" and s': "0 \<le> s'" "s' \<le> 1" and l': "0 \<le> l'" "l' \<le> 1"
    using fdiv_ratio [of "of_int H" 360] fdiv_ratio [of "of_int S" 100]
      fdiv_ratio [of "of_int L" 100] H S L
    by (simp_all add: h'_def s'_def l'_def)
  define K where "K = sq * min lq (1 - lq)"
  note pq = pq_approx [OF l' s' el es lq sq, folded K_def q_def, folded p_def]
  have ch: "hslChannel t sq lq = lq - K + 2 * (K * hueShape t)" for t
    by (simp add: hslChannel_def K_def Let_def)
  have gray: "\<bar>l' - hslChannel t sq lq\<bar> \<le> 1 / 100000000" if "s' = 0" for t
  proof -
    have "S = 0"
    proof (rule ccontr)
      assume "S \<noteq> 0"
      then have "1 \<le> S" using S by simp
      then have "(of_int 1 :: rat) \<le> of_int S" by (simp only: of_int_le_iff)
      then have "1 / 100 \<le> sq" by (simp add: sq_def)
      then show False using es that by linarith
    qed
    then have "K = 0" by (simp add: K_def sq_def)
    then show ?thesis using el unfolding ch by simp
  qed
  have c3: "\<bar>fdiv 1 3 - 1 / 3\<bar> \<le> 1 / 17592186044416" by (rule hue_thresholds)
  have tr: "\<bar>fadd h' (fdiv 1 3) - (hq + 1 / 3)\<bar> \<le> 3 / 17592186044416"
  proof -
    have "\<bar>fadd h' (fdiv 1 3) - (h' + fdiv 1 3)\<bar> \<le> 1 / 17592186044416"
      using h' c3 by (intro fadd_err) linarith
    then show ?thesis using eh c3 by linarith
  qed
  have tb: "\<bar>fsub h' (fdiv 1 3) - (hq - 1 / 3)\<bar> \<le> 3 / 17592186044416"
  proof -
    have "\<bar>fsub h' (fdiv 1 3) - (h' - fdiv 1 3)\<bar> \<le> 1 / 17592186044416"
      using h' c3 by (intro fsub_err) linarith
    then show ?thesis using eh c3 by linarith
  qed
  have tg: "\<bar>h' - hq\<bar> \<le> 3 / 17592186044416" using eh by linarith
  have r: "\<bar>xr - hslChannel (hq + 1 / 3) sq lq\<bar> \<le> 1 / 100000000"
  proof (cases "s' = 0")
    case True
    then show ?thesis using gray by (simp add: xr_def)
  next
    case False
    have "\<bar>hue2rgb p q (fadd h' (fdiv 1 3)) - (lq - K + 2 * (K * hueShape (hq + 1 / 3)))\<bar>
        \<le> 2 / 1000000000"
      using pq(2,1) lq pq(3,4) tr by (rule hsl_channel_approx) (use hq in linarith)+
    then show ?thesis using False unfolding ch xr_def by simp
  qed
  have g: "\<bar>xg - hslChannel hq sq lq\<bar> \<le> 1 / 100000000"
  proof (cases "s' = 0")
    case True
    then show ?thesis using gray by (simp add: xg_def)
  next
    case False
    have "\<bar>hue2rgb p q h' - (lq - K + 2 * (K * hueShape hq))\<bar> \<le> 2 / 1000000000"
      using pq(2,1) lq pq(3,4) tg by (rule hsl_channel_approx) (use hq in linarith)+
    then show ?thesis using False unfolding ch xg_def by simp
  qed
  have b: "\<bar>xb - hslChannel (hq - 1 / 3) sq lq\<bar> \<le> 1 / 100000000"
  proof (cases "s' = 0")
    case True
    then show ?thesis using gray by (simp add: xb_def)
  next
    case False
    have "\<bar>hue2rgb p q (fsub h' (fdiv 1 3)) - (lq - K + 2 * (K * hueShape (hq - 1 / 3)))\<bar>
        \<le> 2 / 1000000000"
      using pq(2,1) lq pq(3,4) tb by (rule hsl_channel_approx) (use hq in linarith)+
    then show ?thesis using False unfolding ch xb_def by simp
  qed
  show ?thesis using eq r g b by blast
qed

subsection \<open>What the encoder stores\<close>

lemma hue_exact_r0:
  assumes "0 \<le> y" "y \<le> 1" "6 * h = y"
  shows "hueShape (h + 1 / 3) = 1" "hueShape h = y" "hueShape (h - 1 / 3) = 0"
  using assms by (auto simp: hueShape_def shape_alt wrap01_def algebra_simps)

lemma hue_exact_r6:
  assumes "- 1 \<le> y" "y \<le> 0" "6 * h = y + 6"
  shows "hueShape (h + 1 / 3) = 1" "hueShape h = 0" "hueShape (h - 1 / 3) = - y"
  using assms by (auto simp: hueShape_def shape_alt wrap01_def algebra_simps)

lemma hue_exact_g_neg:
  assumes "- 1 \<le> y" "y \<le> 0" "6 * h = y + 2"
  shows "hueShape (h + 1 / 3) = - y" "hueShape h = 1" "hueShape (h - 1 / 3) = 0"
  using assms by (auto simp: hueShape_def shape_alt wrap01_def algebra_simps)

lemma hue_exact_g_pos:
  assumes "0 \<le> y" "y \<le> 1" "6 * h = y + 2"
  shows "hueShape (h + 1 / 3) = 0" "hueShape h = 1" "hueShape (h - 1 / 3) = y"
  using assms by (auto simp: hueShape_def shape_alt wrap01_def algebra_simps)

lemma hue_exact_b_neg:
  assumes "- 1 \<le> y" "y \<le> 0" "6 * h = y + 4"
  shows "hueShape (h + 1 / 3) = 0" "hueShape h = - y" "hueShape (h - 1 / 3) = 1"
  using assms by (auto simp: hueShape_def shape_alt wrap01_def algebra_simps)

lemma hue_exact_b_pos:
  assumes "0 \<le> y" "y \<le> 1" "6 * h = y + 4"
  shows "hueShape (h + 1 / 3) = y" "hueShape h = 0" "hueShape (h - 1 / 3) = 1"
  using assms by (auto simp: hueShape_def shape_alt wrap01_def algebra_simps)


lemma channel_span:
  assumes "0 \<le> r" "r \<le> 255" "0 \<le> g" "g \<le> 255" "0 \<le> b" "b \<le> 255"
  defines "rn \<equiv> fdiv (of_int r) 255" and "gn \<equiv> fdiv (of_int g) 255"
    and "bn \<equiv> fdiv (of_int b) 255"
  defines "mx \<equiv> max (max rn gn) bn" and "mn \<equiv> min (min rn gn) bn"
  assumes ne: "mx \<noteq> mn"
  shows "1 / 256 \<le> mx - mn"
proof -
  have lt: "mn < mx" using ne by (auto simp: mx_def mn_def)
  have gap: "1 / 256 \<le> y - x"
    if "x \<in> {rn, gn, bn}" "y \<in> {rn, gn, bn}" "x < y" for x y
  proof -
    from that(1) assms(1-6) obtain j where j: "x = fdiv (of_int j) 255" "0 \<le> j" "j \<le> 255"
      unfolding rn_def gn_def bn_def by blast
    from that(2) assms(1-6) obtain k where k: "y = fdiv (of_int k) 255" "0 \<le> k" "k \<le> 255"
      unfolding rn_def gn_def bn_def by blast
    show ?thesis using that(3) unfolding j(1) k(1) by (intro channel_gap j k)
  qed
  have "mn \<in> {rn, gn, bn}" "mx \<in> {rn, gn, bn}" by (auto simp: mx_def mn_def max_def min_def)
  then show ?thesis using lt by (rule gap)
qed

lemma scale_down:
  fixes w d :: rat
  assumes "\<bar>w * d\<bar> \<le> B" "1 / 512 \<le> d"
  shows "\<bar>w\<bar> \<le> 512 * B"
proof -
  have "\<bar>w\<bar> * (1 / 512) \<le> \<bar>w\<bar> * d" using assms(2) by (intro mult_left_mono) simp_all
  also have "\<dots> = \<bar>w * d\<bar>" using assms(2) by (simp add: abs_mult)
  finally show ?thesis using assms(1) by simp
qed

lemma quotient_approx:
  assumes ez: "\<bar>z - n\<bar> \<le> 1 / 17592186044416" and ed: "\<bar>d - De\<bar> \<le> 1 / 17592186044416"
    and De: "1 / 256 \<le> De" and n: "\<bar>n\<bar> \<le> De" and z: "\<bar>z\<bar> \<le> d"
    and y: "y * De = n"
  shows "\<bar>fdiv z d - y\<bar> \<le> 1 / 10000000000"
proof -
  have d: "1 / 512 \<le> d" using ed De by linarith
  then have d0: "d \<noteq> 0" by auto
  have dpos: "0 < d" using d by linarith
  have "\<bar>z\<bar> / d \<le> 1" using z dpos by (simp add: divide_le_eq_1)
  moreover have "\<bar>z / d\<bar> = \<bar>z\<bar> / d" using dpos by simp
  ultimately have "\<bar>z / d\<bar> \<le> 512" by linarith
  then have e1: "\<bar>fdiv z d - z / d\<bar> \<le> 1 / 17592186044416" by (rule fdiv_err)
  have Dpos: "0 < De" using De by linarith
  have "\<bar>y * De\<bar> = \<bar>y\<bar> * De" using Dpos by (simp add: abs_mult)
  then have "\<bar>y\<bar> * De \<le> 1 * De" using n unfolding y by linarith
  then have y1: "\<bar>y\<bar> \<le> 1" using Dpos by (rule mult_right_le_imp_le)
  define c where "c = y * (d - De)"
  have "\<bar>c\<bar> \<le> 1 * (1 / 17592186044416)" unfolding c_def using y1 ed by (rule abs_mult_le)
  then have c: "\<bar>c\<bar> \<le> 1 / 17592186044416" by simp
  have "(z / d - y) * d = z - n - c" using d0 y by (simp add: c_def algebra_simps)
  then have "\<bar>(z / d - y) * d\<bar> \<le> 2 / 17592186044416" using ez c by linarith
  then have "\<bar>z / d - y\<bar> \<le> 512 * (2 / 17592186044416)" using d by (rule scale_down)
  then show ?thesis using e1 by linarith
qed


lemma hue_fraction_approx:
  assumes De: "1 / 256 \<le> De" "De \<le> 1" and ab: "\<bar>a - b\<bar> \<le> De"
    and y: "y * De = a - b" and k: "0 \<le> k" "k \<le> 6" and h0: "6 * h0 = y + k"
  shows "\<bar>fdiv (fadd (fdiv (fsub a b) (fl De)) k) 6 - h0\<bar> \<le> 1 / 1000000000"
proof -
  define z where "z = fsub a b"
  define q1 where "q1 = fdiv z (fl De)"
  define a1 where "a1 = fadd q1 k"
  have ez: "\<bar>z - (a - b)\<bar> \<le> 1 / 17592186044416"
    unfolding z_def using ab De by (intro fsub_err) linarith
  have ed: "\<bar>fl De - De\<bar> \<le> 1 / 17592186044416" using De by (intro fl_err_512) linarith
  have z: "\<bar>z\<bar> \<le> fl De" unfolding z_def fsub_def using ab by (rule fl_abs_le)
  have e1: "\<bar>q1 - y\<bar> \<le> 1 / 10000000000"
    unfolding q1_def using ez ed De(1) ab z y by (rule quotient_approx)
  have Dpos: "0 < De" using De by linarith
  have "\<bar>y * De\<bar> = \<bar>y\<bar> * De" using Dpos by (simp add: abs_mult)
  then have "\<bar>y\<bar> * De \<le> 1 * De" using ab unfolding y by linarith
  then have y1: "\<bar>y\<bar> \<le> 1" using Dpos by (rule mult_right_le_imp_le)
  have e2: "\<bar>a1 - (q1 + k)\<bar> \<le> 1 / 17592186044416"
    unfolding a1_def using e1 y1 k by (intro fadd_err) linarith
  have "\<bar>a1\<bar> \<le> 8" using e2 e1 y1 k by linarith
  then have "\<bar>a1 / 6\<bar> \<le> 512" by simp
  then have e3: "\<bar>fdiv a1 6 - a1 / 6\<bar> \<le> 1 / 17592186044416" by (rule fdiv_err)
  show ?thesis
    unfolding z_def [symmetric] q1_def [symmetric] a1_def [symmetric]
    using e1 e2 e3 h0 by linarith
qed

lemma encode_close:
  assumes h: "\<bar>hf - h0\<bar> \<le> 1 / 1000000000" and hf: "0 \<le> hf" "hf \<le> 1"
    and h0: "0 \<le> h0" "h0 \<le> 1" and off: "- 1 / 3 \<le> off" "off \<le> 1 / 3"
    and Y: "hueShape (h0 + off) = Y" and X: "De * Y = X - mn" and De: "0 \<le> De" "De \<le> 1"
  shows "\<bar>De * hueShape (hf + off) - (X - mn)\<bar> \<le> 6 / 1000000000"
proof -
  have "\<bar>(hf + off) - (h0 + off)\<bar> \<le> 1 / 1000000000" using h by linarith
  then have "\<bar>hueShape (hf + off) - hueShape (h0 + off)\<bar> \<le> 6 * (1 / 1000000000)"
    using hf h0 off by (intro hueShape_close) linarith+
  then have e: "\<bar>hueShape (hf + off) - Y\<bar> \<le> 6 / 1000000000" using Y by simp
  have "\<bar>De - De\<bar> \<le> 0" by simp
  moreover note e
  moreover have "\<bar>De\<bar> \<le> 1" using De by linarith
  moreover have "\<bar>hueShape (hf + off)\<bar> \<le> 1"
    using hueShape_range [of "hf + off"] hf off by linarith
  ultimately have "\<bar>De * hueShape (hf + off) - De * Y\<bar> \<le> 0 * 1 + 1 * (6 / 1000000000)"
    by (rule prod_err)
  then show ?thesis using X by simp
qed


lemma ratio_bounds:
  fixes y De n :: rat
  assumes "0 < De" "y * De = n"
  shows "n \<le> 0 \<Longrightarrow> y \<le> 0" and "0 \<le> n \<Longrightarrow> 0 \<le> y"
    and "- De \<le> n \<Longrightarrow> - 1 \<le> y" and "n \<le> De \<Longrightarrow> y \<le> 1"
proof -
  show "n \<le> 0 \<Longrightarrow> y \<le> 0" using assms by (auto simp: mult_le_0_iff)
  show "0 \<le> n \<Longrightarrow> 0 \<le> y" using assms by (auto simp: zero_le_mult_iff)
  show "- De \<le> n \<Longrightarrow> - 1 \<le> y"
  proof -
    assume "- De \<le> n"
    then have "(- 1) * De \<le> y * De" using assms(2) by simp
    then show ?thesis using assms(1) by (rule mult_right_le_imp_le)
  qed
  show "n \<le> De \<Longrightarrow> y \<le> 1"
  proof -
    assume "n \<le> De"
    then have "y * De \<le> 1 * De" using assms(2) by simp
    then show ?thesis using assms(1) by (rule mult_right_le_imp_le)
  qed
qed

lemma hue_encodes:
  fixes rn gn bn :: rat
  assumes u: "0 \<le> rn" "rn \<le> 1" "0 \<le> gn" "gn \<le> 1" "0 \<le> bn" "bn \<le> 1"
  defines "mx \<equiv> max (max rn gn) bn" and "mn \<equiv> min (min rn gn) bn"
  defines "d \<equiv> fsub mx mn"
  defines "h \<equiv> (if mx \<noteq> mn
      then (if mx = rn then fdiv (fadd (fdiv (fsub gn bn) d) (if gn < bn then 6 else 0)) 6
            else if mx = gn then fdiv (fadd (fdiv (fsub bn rn) d) 2) 6
            else if mx = bn then fdiv (fadd (fdiv (fsub rn gn) d) 4) 6
            else 0)
      else 0)"
  assumes span: "mx \<noteq> mn \<Longrightarrow> 1 / 256 \<le> mx - mn"
  shows "\<bar>(mx - mn) * hueShape (h + 1 / 3) - (rn - mn)\<bar> \<le> 6 / 1000000000 \<and>
         \<bar>(mx - mn) * hueShape h - (gn - mn)\<bar> \<le> 6 / 1000000000 \<and>
         \<bar>(mx - mn) * hueShape (h - 1 / 3) - (bn - mn)\<bar> \<le> 6 / 1000000000"
proof (cases "mx = mn")
  case True
  have "mn \<le> rn" "rn \<le> mx" "mn \<le> gn" "gn \<le> mx" "mn \<le> bn" "bn \<le> mx"
    by (auto simp: mx_def mn_def)
  then have "rn = mn" "gn = mn" "bn = mn" using True by simp_all
  then show ?thesis using True by simp
next
  case False
  define De where "De = mx - mn"
  have De: "1 / 256 \<le> De" "De \<le> 1" "0 \<le> De" "0 < De"
    using span [OF False] u by (auto simp: De_def mx_def mn_def)
  have dfl: "d = fl De" by (simp add: d_def fsub_def De_def)
  have m: "mn \<le> rn" "rn \<le> mx" "mn \<le> gn" "gn \<le> mx" "mn \<le> bn" "bn \<le> mx"
    by (auto simp: mx_def mn_def)
  note R = rgbToHsl_unit_range [OF u, folded mx_def mn_def, folded d_def]
  have z: "0 \<le> (0::rat) \<and> (0::rat) \<le> 1" by simp
  have hu: "0 \<le> h \<and> h \<le> 1" unfolding h_def by (intro if_unit R(4) R(5) R(6) z)
  then have hr: "0 \<le> h" "h \<le> 1" by simp_all
  have off: "- 1 / 3 \<le> (1 / 3 :: rat)" "(1 / 3 :: rat) \<le> 1 / 3"
    "- 1 / 3 \<le> (0 :: rat)" "(0 :: rat) \<le> 1 / 3"
    "- 1 / 3 \<le> (- 1 / 3 :: rat)" "(- 1 / 3 :: rat) \<le> 1 / 3" by simp_all
  have main: "\<bar>De * hueShape (h + 1 / 3) - (rn - mn)\<bar> \<le> 6 / 1000000000 \<and>
         \<bar>De * hueShape (h + 0) - (gn - mn)\<bar> \<le> 6 / 1000000000 \<and>
         \<bar>De * hueShape (h + - 1 / 3) - (bn - mn)\<bar> \<le> 6 / 1000000000"
    if hh: "\<bar>h - h0\<bar> \<le> 1 / 1000000000" and h0: "0 \<le> h0" "h0 \<le> 1"
      and Y: "hueShape (h0 + 1 / 3) = YR" "hueShape (h0 + 0) = YG" "hueShape (h0 + - 1 / 3) = YB"
      and X: "De * YR = rn - mn" "De * YG = gn - mn" "De * YB = bn - mn"
    for h0 YR YG YB
    using encode_close [OF hh hr h0 off(1,2) Y(1) X(1) De(3,2)]
      encode_close [OF hh hr h0 off(3,4) Y(2) X(2) De(3,2)]
      encode_close [OF hh hr h0 off(5,6) Y(3) X(3) De(3,2)]
    by simp
  have goal: "\<bar>De * hueShape (h + 1 / 3) - (rn - mn)\<bar> \<le> 6 / 1000000000 \<and>
         \<bar>De * hueShape (h + 0) - (gn - mn)\<bar> \<le> 6 / 1000000000 \<and>
         \<bar>De * hueShape (h + - 1 / 3) - (bn - mn)\<bar> \<le> 6 / 1000000000"
  proof -
    have "mx = rn \<or> mx = gn \<or> mx = bn" by (auto simp: mx_def max_def)
    then consider (r) "mx = rn" | (g) "mx \<noteq> rn" "mx = gn"
      | (b) "mx \<noteq> rn" "mx \<noteq> gn" "mx = bn"
      by blast
    then show ?thesis
    proof cases
      case r
      define y where "y = (gn - bn) / De"
      have y: "y * De = gn - bn" using De(4) by (simp add: y_def)
      have ab: "\<bar>gn - bn\<bar> \<le> De" using m unfolding De_def by linarith
      note yb = ratio_bounds [OF De(4) y]
      show ?thesis
      proof (cases "gn < bn")
        case True
        have mn: "mn = gn" using True r m by (auto simp: mn_def min_def)
        have hx: "h = fdiv (fadd (fdiv (fsub gn bn) (fl De)) 6) 6"
          using False r True by (simp add: h_def dfl)
        define h0 where "h0 = (y + 6) / 6"
        have h6: "6 * h0 = y + 6" by (simp add: h0_def)
        have yr: "- 1 \<le> y" "y \<le> 0" using yb(3) yb(1) ab True by simp_all
        have h0: "0 \<le> h0" "h0 \<le> 1" using yr h6 by linarith+
        have hh: "\<bar>h - h0\<bar> \<le> 1 / 1000000000"
          unfolding hx using De(1,2) ab y _ _ h6 by (rule hue_fraction_approx) simp_all
        show ?thesis
          using hh h0
        proof (rule main)
          show "hueShape (h0 + 1 / 3) = 1" using yr h6 by (rule hue_exact_r6)
          show "hueShape (h0 + 0) = 0" using hue_exact_r6(2) [OF yr h6] by simp
          show "hueShape (h0 + - 1 / 3) = - y" using hue_exact_r6(3) [OF yr h6] by simp
          show "De * 1 = rn - mn" using r by (simp add: De_def)
          show "De * 0 = gn - mn" using mn by simp
          show "De * - y = bn - mn" using y mn by (simp add: algebra_simps)
        qed
      next
        case F: False
        have mn: "mn = bn" using F r m by (auto simp: mn_def min_def)
        have hx: "h = fdiv (fadd (fdiv (fsub gn bn) (fl De)) 0) 6"
          using False r F by (simp add: h_def dfl)
        define h0 where "h0 = y / 6"
        have h6: "6 * h0 = y" by (simp add: h0_def)
        have h6': "6 * h0 = y + 0" by (simp add: h0_def)
        have yr: "0 \<le> y" "y \<le> 1" using yb(2) yb(4) ab F by simp_all
        have h0: "0 \<le> h0" "h0 \<le> 1" using yr h6 by linarith+
        have hh: "\<bar>h - h0\<bar> \<le> 1 / 1000000000"
          unfolding hx using De(1,2) ab y _ _ h6' by (rule hue_fraction_approx) simp_all
        show ?thesis
          using hh h0
        proof (rule main)
          show "hueShape (h0 + 1 / 3) = 1" using yr h6 by (rule hue_exact_r0)
          show "hueShape (h0 + 0) = y" using hue_exact_r0(2) [OF yr h6] by simp
          show "hueShape (h0 + - 1 / 3) = 0" using hue_exact_r0(3) [OF yr h6] by simp
          show "De * 1 = rn - mn" using r by (simp add: De_def)
          show "De * y = gn - mn" using y mn by (simp add: algebra_simps)
          show "De * 0 = bn - mn" using mn by simp
        qed
      qed
    next
      case g
      define y where "y = (bn - rn) / De"
      have y: "y * De = bn - rn" using De(4) by (simp add: y_def)
      have ab: "\<bar>bn - rn\<bar> \<le> De" using m unfolding De_def by linarith
      note yb = ratio_bounds [OF De(4) y]
      have hx: "h = fdiv (fadd (fdiv (fsub bn rn) (fl De)) 2) 6"
        using False g by (simp add: h_def dfl)
      define h0 where "h0 = (y + 2) / 6"
      have h6: "6 * h0 = y + 2" by (simp add: h0_def)
      have y1: "- 1 \<le> y" "y \<le> 1" using yb(3) yb(4) ab by simp_all
      have h0: "0 \<le> h0" "h0 \<le> 1" using y1 h6 by linarith+
      have hh: "\<bar>h - h0\<bar> \<le> 1 / 1000000000"
        unfolding hx using De(1,2) ab y _ _ h6 by (rule hue_fraction_approx) simp_all
      show ?thesis
      proof (cases "bn \<le> rn")
        case True
        have mn: "mn = bn" using True g m by (auto simp: mn_def min_def)
        have yr: "- 1 \<le> y" "y \<le> 0" using y1 yb(1) True by simp_all
        show ?thesis
          using hh h0
        proof (rule main)
          show "hueShape (h0 + 1 / 3) = - y" using yr h6 by (rule hue_exact_g_neg)
          show "hueShape (h0 + 0) = 1" using hue_exact_g_neg(2) [OF yr h6] by simp
          show "hueShape (h0 + - 1 / 3) = 0" using hue_exact_g_neg(3) [OF yr h6] by simp
          show "De * - y = rn - mn" using y mn by (simp add: algebra_simps)
          show "De * 1 = gn - mn" using g by (simp add: De_def)
          show "De * 0 = bn - mn" using mn by simp
        qed
      next
        case F: False
        have mn: "mn = rn" using F g m by (auto simp: mn_def min_def)
        have yr: "0 \<le> y" "y \<le> 1" using y1 yb(2) F by simp_all
        show ?thesis
          using hh h0
        proof (rule main)
          show "hueShape (h0 + 1 / 3) = 0" using yr h6 by (rule hue_exact_g_pos)
          show "hueShape (h0 + 0) = 1" using hue_exact_g_pos(2) [OF yr h6] by simp
          show "hueShape (h0 + - 1 / 3) = y" using hue_exact_g_pos(3) [OF yr h6] by simp
          show "De * 0 = rn - mn" using mn by simp
          show "De * 1 = gn - mn" using g by (simp add: De_def)
          show "De * y = bn - mn" using y mn by (simp add: algebra_simps)
        qed
      qed
    next
      case b
      define y where "y = (rn - gn) / De"
      have y: "y * De = rn - gn" using De(4) by (simp add: y_def)
      have ab: "\<bar>rn - gn\<bar> \<le> De" using m unfolding De_def by linarith
      note yb = ratio_bounds [OF De(4) y]
      have hx: "h = fdiv (fadd (fdiv (fsub rn gn) (fl De)) 4) 6"
        using False b by (simp add: h_def dfl)
      define h0 where "h0 = (y + 4) / 6"
      have h6: "6 * h0 = y + 4" by (simp add: h0_def)
      have y1: "- 1 \<le> y" "y \<le> 1" using yb(3) yb(4) ab by simp_all
      have h0: "0 \<le> h0" "h0 \<le> 1" using y1 h6 by linarith+
      have hh: "\<bar>h - h0\<bar> \<le> 1 / 1000000000"
        unfolding hx using De(1,2) ab y _ _ h6 by (rule hue_fraction_approx) simp_all
      show ?thesis
      proof (cases "rn \<le> gn")
        case True
        have mn: "mn = rn" using True b m by (auto simp: mn_def min_def)
        have yr: "- 1 \<le> y" "y \<le> 0" using y1 yb(1) True by simp_all
        show ?thesis
          using hh h0
        proof (rule main)
          show "hueShape (h0 + 1 / 3) = 0" using yr h6 by (rule hue_exact_b_neg)
          show "hueShape (h0 + 0) = - y" using hue_exact_b_neg(2) [OF yr h6] by simp
          show "hueShape (h0 + - 1 / 3) = 1" using hue_exact_b_neg(3) [OF yr h6] by simp
          show "De * 0 = rn - mn" using mn by simp
          show "De * - y = gn - mn" using y mn by (simp add: algebra_simps)
          show "De * 1 = bn - mn" using b by (simp add: De_def)
        qed
      next
        case F: False
        have mn: "mn = gn" using F b m by (auto simp: mn_def min_def)
        have yr: "0 \<le> y" "y \<le> 1" using y1 yb(2) F by simp_all
        show ?thesis
          using hh h0
        proof (rule main)
          show "hueShape (h0 + 1 / 3) = y" using yr h6 by (rule hue_exact_b_pos)
          show "hueShape (h0 + 0) = 0" using hue_exact_b_pos(2) [OF yr h6] by simp
          show "hueShape (h0 + - 1 / 3) = 1" using hue_exact_b_pos(3) [OF yr h6] by simp
          show "De * y = rn - mn" using y mn by (simp add: algebra_simps)
          show "De * 0 = gn - mn" using mn by simp
          show "De * 1 = bn - mn" using b by (simp add: De_def)
        qed
      qed
    qed
  qed
  then show ?thesis by (simp add: De_def)
qed

lemma sat_encodes:
  fixes mx mn :: rat
  assumes m: "0 \<le> mn" "mn \<le> mx" "mx \<le> 1"
    and span: "mx \<noteq> mn \<Longrightarrow> 1 / 256 \<le> mx - mn"
    and le: "2 * le = mx + mn" and Dh: "2 * Dh = mx - mn"
  defines "d \<equiv> fsub mx mn"
  defines "l \<equiv> fdiv (fadd mx mn) 2"
  defines "s \<equiv> (if mx \<noteq> mn
      then (if 1 / 2 < l then fdiv d (fsub (fsub 2 mx) mn) else fdiv d (fadd mx mn))
      else 0)"
  shows "\<bar>l - le\<bar> \<le> 1 / 1000000000" and "\<bar>s * min le (1 - le) - Dh\<bar> \<le> 1 / 1000000000"
proof -
  define a where "a = fadd mx mn"
  have ea: "\<bar>a - (mx + mn)\<bar> \<le> 1 / 17592186044416"
    unfolding a_def using m by (intro fadd_err) linarith
  have "\<bar>a\<bar> \<le> 3" using ea m by linarith
  then have "\<bar>a / 2\<bar> \<le> 512" by simp
  then have "\<bar>fdiv a 2 - a / 2\<bar> \<le> 1 / 17592186044416" by (rule fdiv_err)
  then have el: "\<bar>l - le\<bar> \<le> 2 / 17592186044416"
    unfolding l_def a_def [symmetric] using ea le by linarith
  then show "\<bar>l - le\<bar> \<le> 1 / 1000000000" by linarith
  show "\<bar>s * min le (1 - le) - Dh\<bar> \<le> 1 / 1000000000"
  proof (cases "mx = mn")
    case True
    then show ?thesis using Dh by (simp add: s_def)
  next
    case False
    define me where "me = min le (1 - le)"
    define den where "den = (if 1 / 2 < l then fsub (fsub 2 mx) mn else fadd mx mn)"
    have s: "s = fdiv d den" using False by (simp add: s_def den_def)
    have De: "1 / 256 \<le> mx - mn" using span False by simp
    have ed: "\<bar>d - (mx - mn)\<bar> \<le> 1 / 17592186044416"
      unfolding d_def using m by (intro fsub_err) linarith
    have d0: "0 \<le> d" unfolding d_def fsub_def using m by (intro fl_nonneg) simp
    have dden: "d \<le> den"
    proof (cases "1 / 2 < l")
      case True
      have "mx \<le> fsub 2 mx"
        using m by (simp add: fsub_def fl_ge [of 1] fl_exact order_trans [of mx 1])
      then have "mx - mn \<le> fsub 2 mx - mn" by simp
      then have "fl (mx - mn) \<le> fl (fsub 2 mx - mn)" by (rule fl_mono)
      then show ?thesis using True by (simp add: d_def den_def fsub_def)
    next
      case F: False
      have "mx - mn \<le> mx + mn" using m by simp
      then have "fl (mx - mn) \<le> fl (mx + mn)" by (rule fl_mono)
      then show ?thesis using F by (simp add: d_def den_def fsub_def fadd_def)
    qed
    have mec: "me = le \<and> le \<le> 1 - le \<or> me = 1 - le \<and> 1 - le \<le> le"
      unfolding me_def min_def by auto
    have eden: "\<bar>den - 2 * me\<bar> \<le> 10 / 17592186044416"
    proof (cases "1 / 2 < l")
      case True
      define c where "c = fsub 2 mx"
      have ec: "\<bar>c - (2 - mx)\<bar> \<le> 1 / 17592186044416"
        unfolding c_def using m by (intro fsub_err) linarith
      have "\<bar>fsub c mn - (c - mn)\<bar> \<le> 1 / 17592186044416"
        using ec m by (intro fsub_err) linarith
      moreover have "den = fsub c mn" using True by (simp add: den_def c_def)
      ultimately show ?thesis using ec el le True mec by (elim disjE conjE; linarith)
    next
      case F: False
      have "den = a" using F by (simp add: den_def a_def)
      then show ?thesis using ea el le F mec by (elim disjE conjE; linarith)
    qed
    have dpos: "0 < d" using ed De by linarith
    then have denpos: "0 < den" using dden by linarith
    have me: "me \<le> 1 / 2" using mec by (elim disjE conjE; linarith)
    have den3: "\<bar>den\<bar> \<le> 3" using eden me denpos by linarith
    have "d / den \<le> 1" using dden denpos by (simp add: divide_le_eq_1)
    moreover have "0 \<le> d / den" using d0 denpos by simp
    ultimately have "\<bar>d / den\<bar> \<le> 512" by linarith
    then have es: "\<bar>s - d / den\<bar> \<le> 1 / 17592186044416" unfolding s by (rule fdiv_err)
    then have "\<bar>(s - d / den) * den\<bar> \<le> 1 / 17592186044416 * 3" using den3 by (rule abs_mult_le)
    moreover have "(s - d / den) * den = s * den - d" using denpos by (simp add: algebra_simps)
    ultimately have e1: "\<bar>s * den - d\<bar> \<le> 3 / 17592186044416" by simp
    have s01: "0 \<le> s" "s \<le> 1"
      using fdiv_ratio [OF d0 dden] by (simp_all add: s)
    have "\<bar>s - s\<bar> \<le> 0" by simp
    moreover have "\<bar>den - 2 * me\<bar> \<le> 10 / 17592186044416" by (rule eden)
    moreover have "\<bar>s\<bar> \<le> 1" using s01 by linarith
    ultimately have "\<bar>s * den - s * (2 * me)\<bar> \<le> 0 * 3 + 1 * (10 / 17592186044416)"
      using den3 by (rule prod_err)
    moreover define P where "P = s * me"
    moreover have "s * (2 * me) = 2 * P" by (simp add: P_def)
    ultimately have "\<bar>s * den - 2 * P\<bar> \<le> 10 / 17592186044416" by (simp only: mult_zero_left add_0_left mult_1)
    then have "\<bar>P - Dh\<bar> \<le> 1 / 1000000000" using e1 ed Dh by linarith
    then show ?thesis by (simp add: P_def me_def)
  qed
qed

lemma sat_unit:
  fixes mx mn :: rat
  assumes m: "0 \<le> mn" "mn \<le> mx" "mx \<le> 1"
  defines "d \<equiv> fsub mx mn"
  defines "l \<equiv> fdiv (fadd mx mn) 2"
  defines "s \<equiv> (if mx \<noteq> mn
      then (if 1 / 2 < l then fdiv d (fsub (fsub 2 mx) mn) else fdiv d (fadd mx mn))
      else 0)"
  shows "0 \<le> s" "s \<le> 1"
proof -
  have d0: "0 \<le> d" unfolding d_def fsub_def using m by (intro fl_nonneg) simp
  have "mx \<le> fsub 2 mx"
    using m by (simp add: fsub_def fl_ge [of 1] fl_exact order_trans [of mx 1])
  then have "mx - mn \<le> fsub 2 mx - mn" by simp
  then have "fl (mx - mn) \<le> fl (fsub 2 mx - mn)" by (rule fl_mono)
  then have 1: "d \<le> fsub (fsub 2 mx) mn" by (simp add: d_def fsub_def)
  have "mx - mn \<le> mx + mn" using m by simp
  then have "fl (mx - mn) \<le> fl (mx + mn)" by (rule fl_mono)
  then have 2: "d \<le> fadd mx mn" by (simp add: d_def fsub_def fadd_def)
  show "0 \<le> s" "s \<le> 1"
    using fdiv_ratio [OF d0 1] fdiv_ratio [OF d0 2] by (simp_all add: s_def)
qed

subsection \<open>The drift of one channel\<close>

lemma channel_drift:
  fixes x X :: rat
  assumes x: "\<bar>x - hslChannel tq sq lq\<bar> \<le> 1 / 100000000"
    and enc: "\<bar>De * hueShape tf - (X - mn)\<bar> \<le> 6 / 1000000000"
    and sat: "\<bar>sf * min le (1 - le) - Dh\<bar> \<le> 1 / 1000000000"
    and Dh: "2 * Dh = De" and le: "le = mn + Dh"
    and eh: "\<bar>tq - tf\<bar> \<le> 1 / 720 + 1 / 100000000"
    and es: "\<bar>sq - sf\<bar> \<le> 1 / 200 + 1 / 100000000"
    and el: "\<bar>lq - le\<bar> \<le> 1 / 200 + 1 / 100000000"
    and tq: "- 1 / 2 \<le> tq" "tq \<le> 3 / 2" and tf: "- 1 / 2 \<le> tf" "tf \<le> 3 / 2"
    and sf: "0 \<le> sf" "sf \<le> 1" and lq: "0 \<le> lq" "lq \<le> 1"
    and De: "0 \<le> De" "De \<le> 1"
  shows "\<bar>x - X\<bar> \<le> 1 / 48 + 1 / 1000000"
proof -
  define mq me where "mq = min lq (1 - lq)" and "me = min le (1 - le)"
  define K P where "K = sq * mq" and "P = sf * me"
  define F' F where "F' = hueShape tq" and "F = hueShape tf"
  define G where "G = De * F"
  define T1 T2 where "T1 = (K - Dh) * (2 * F' - 1)" and "T2 = De * (F' - F)"
  define C where "C = hslChannel tq sq lq"
  have mqc: "mq = lq \<and> lq \<le> 1 - lq \<or> mq = 1 - lq \<and> 1 - lq \<le> lq"
    unfolding mq_def min_def by auto
  have mec: "me = le \<and> le \<le> 1 - le \<or> me = 1 - le \<and> 1 - le \<le> le"
    unfolding me_def min_def by auto
  have mm: "\<bar>mq - me\<bar> \<le> 1 / 200 + 1 / 100000000"
    using mqc mec el by (elim disjE conjE; linarith)
  have mqb: "\<bar>mq\<bar> \<le> 1 / 2" using mqc lq by (elim disjE conjE; linarith)
  have sfb: "\<bar>sf\<bar> \<le> 1" using sf by linarith
  have "\<bar>sq * mq - sf * me\<bar> \<le> (1 / 200 + 1 / 100000000) * (1 / 2) + 1 * (1 / 200 + 1 / 100000000)"
    using es mm sfb mqb by (rule prod_err)
  moreover have "(1 / 200 + 1 / 100000000) * (1 / 2) + 1 * (1 / 200 + 1 / 100000000)
      \<le> (3 / 400 + 1 / 50000000 :: rat)" by simp
  ultimately have KP: "\<bar>K - P\<bar> \<le> 3 / 400 + 1 / 50000000"
    unfolding K_def P_def by (rule order_trans)
  have PD: "\<bar>P - Dh\<bar> \<le> 1 / 1000000000" using sat by (simp only: P_def me_def)
  have KD: "\<bar>K - Dh\<bar> \<le> 3 / 400 + 1 / 10000000" using KP PD by linarith
  have F': "0 \<le> F'" "F' \<le> 1" unfolding F'_def using tq by (rule hueShape_range)+
  then have "\<bar>2 * F' - 1\<bar> \<le> 1" by linarith
  with KD have "\<bar>(K - Dh) * (2 * F' - 1)\<bar> \<le> (3 / 400 + 1 / 10000000) * 1" by (rule abs_mult_le)
  then have T1: "\<bar>T1\<bar> \<le> 3 / 400 + 1 / 10000000" by (simp only: T1_def mult_1_right)
  have "\<bar>F' - F\<bar> \<le> 6 * (1 / 720 + 1 / 100000000)"
    unfolding F'_def F_def using tq tf eh by (rule hueShape_close)
  moreover have "\<bar>De\<bar> \<le> 1" using De by linarith
  ultimately have "\<bar>De * (F' - F)\<bar> \<le> 1 * (6 * (1 / 720 + 1 / 100000000))"
    by (intro abs_mult_le)
  moreover have "1 * (6 * (1 / 720 + 1 / 100000000)) \<le> (1 / 120 + 1 / 10000000 :: rat)" by simp
  ultimately have T2: "\<bar>T2\<bar> \<le> 1 / 120 + 1 / 10000000"
    unfolding T2_def by (rule order_trans)
  have "C = lq - K + 2 * (K * F')"
    by (simp add: C_def hslChannel_def Let_def K_def mq_def F'_def)
  moreover have "lq - K + 2 * (K * F') - (mn + G) = (lq - le) + T1 + T2"
    unfolding T1_def T2_def G_def le Dh [symmetric] by (simp add: algebra_simps)
  ultimately have id: "C - (mn + G) = (lq - le) + T1 + T2" by simp
  have x': "\<bar>x - C\<bar> \<le> 1 / 100000000" using x by (simp only: C_def)
  have enc': "\<bar>G - (X - mn)\<bar> \<le> 6 / 1000000000" using enc by (simp only: G_def F_def)
  show ?thesis using id x' enc' el T1 T2 by linarith
qed

lemma quantize_hue:
  assumes "0 \<le> v" "v \<le> 1" and q: "360 * q = of_int (js_round (fmul v 360))"
  shows "\<bar>q - v\<bar> \<le> 1 / 720 + 1 / 1000000000"
proof -
  have "\<bar>v\<bar> \<le> 1" using assms by linarith
  moreover have "\<bar>360 :: rat\<bar> \<le> 360" by simp
  ultimately have "\<bar>fmul v 360 - v * 360\<bar> \<le> 1 / 17592186044416"
    by (rule fmul_err) simp
  then show ?thesis
    using js_round_bounds [of "fmul v 360"] q by linarith
qed

lemma quantize_percent:
  assumes "0 \<le> v" "v \<le> 1" and q: "100 * q = of_int (js_round (fmul v 100))"
  shows "\<bar>q - v\<bar> \<le> 1 / 200 + 1 / 1000000000"
proof -
  have "\<bar>v\<bar> \<le> 1" using assms by linarith
  moreover have "\<bar>100 :: rat\<bar> \<le> 100" by simp
  ultimately have "\<bar>fmul v 100 - v * 100\<bar> \<le> 1 / 17592186044416"
    by (rule fmul_err) simp
  then show ?thesis
    using js_round_bounds [of "fmul v 100"] q by linarith
qed

lemma channel_back:
  assumes k: "0 \<le> k" "k \<le> 255"
    and x: "\<bar>x - fdiv (of_int k) 255\<bar> \<le> 1 / 48 + 1 / 1000000"
  shows "\<bar>js_round (fmul x 255) - k\<bar> \<le> 5"
proof -
  define kq :: rat where "kq = of_int k / 255"
  have kq: "255 * kq = of_int k" by (simp add: kq_def)
  have kr: "0 \<le> kq" "kq \<le> 1" using k by (simp_all add: kq_def)
  have ce: "kq - 1 / 9007199254740992 \<le> fdiv (of_int k) 255"
    "fdiv (of_int k) 255 \<le> kq + 1 / 9007199254740992"
    unfolding kq_def using k by (rule channel_err)+
  have "\<bar>x\<bar> \<le> 2" using x ce kr by linarith
  moreover have "\<bar>255 :: rat\<bar> \<le> 255" by simp
  ultimately have "\<bar>fmul x 255 - x * 255\<bar> \<le> 1 / 17592186044416"
    by (rule fmul_err) simp
  then have "\<bar>of_int (js_round (fmul x 255)) - (of_int k :: rat)\<bar> < 6"
    using js_round_bounds [of "fmul x 255"] x ce kq by linarith
  then have "\<bar>of_int (js_round (fmul x 255) - k) :: rat\<bar> < of_int 6" by simp
  then have "\<bar>js_round (fmul x 255) - k\<bar> < 6"
    unfolding of_int_abs [symmetric] of_int_less_iff .
  then show ?thesis by simp
qed

lemma roundtrip_drift:
  assumes r: "0 \<le> r" "r \<le> 255" and g: "0 \<le> g" "g \<le> 255" and b: "0 \<le> b" "b \<le> 255"
  shows "\<bar>rgb_r (hslRoundTrip r g b) - r\<bar> \<le> 5 \<and>
         \<bar>rgb_g (hslRoundTrip r g b) - g\<bar> \<le> 5 \<and>
         \<bar>rgb_b (hslRoundTrip r g b) - b\<bar> \<le> 5"
proof -
  define rn gn bn where "rn = fdiv (of_int r) 255" and "gn = fdiv (of_int g) 255"
    and "bn = fdiv (of_int b) 255"
  define mx mn where "mx = max (max rn gn) bn" and "mn = min (min rn gn) bn"
  define l d where "l = fdiv (fadd mx mn) 2" and "d = fsub mx mn"
  define s where "s = (if mx \<noteq> mn
      then (if 1 / 2 < l then fdiv d (fsub (fsub 2 mx) mn) else fdiv d (fadd mx mn)) else 0)"
  define h where "h = (if mx \<noteq> mn
      then (if mx = rn then fdiv (fadd (fdiv (fsub gn bn) d) (if gn < bn then 6 else 0)) 6
            else if mx = gn then fdiv (fadd (fdiv (fsub bn rn) d) 2) 6
            else if mx = bn then fdiv (fadd (fdiv (fsub rn gn) d) 4) 6
            else 0)
      else 0)"
  define H S L where "H = js_round (fmul h 360)" and "S = js_round (fmul s 100)"
    and "L = js_round (fmul l 100)"
  have eq: "rgbToHsl (of_int r) (of_int g) (of_int b) = \<lparr>hsl_h = H, hsl_s = S, hsl_l = L\<rparr>"
    unfolding rgbToHsl_def Let_def H_def S_def L_def h_def s_def l_def d_def mx_def mn_def
      rn_def gn_def bn_def ..
  have rt: "hslRoundTrip r g b = hslToRgb (of_int H) (of_int S) (of_int L)"
    unfolding hslRoundTrip_def Let_def eq hsl.simps ..
  have u: "0 \<le> rn" "rn \<le> 1" "0 \<le> gn" "gn \<le> 1" "0 \<le> bn" "bn \<le> 1"
    using channel_unit [OF r] channel_unit [OF g] channel_unit [OF b]
    by (simp_all add: rn_def gn_def bn_def)
  note R = rgbToHsl_unit_range [OF u, folded mx_def mn_def, folded d_def]
  have z: "0 \<le> (0::rat) \<and> (0::rat) \<le> 1" by simp
  have lu: "0 \<le> l" "l \<le> 1" unfolding l_def using R(1) by simp_all
  have su: "0 \<le> s \<and> s \<le> 1" unfolding s_def by (intro if_unit R(2) R(3) z)
  have hu: "0 \<le> h \<and> h \<le> 1" unfolding h_def by (intro if_unit R(4) R(5) R(6) z)
  have B: "0 \<le> H \<and> H \<le> 360 \<and> 0 \<le> S \<and> S \<le> 100 \<and> 0 \<le> L \<and> L \<le> 100"
    using rgbToHsl_bounds [OF r g b] unfolding eq hsl.simps .
  define hq sq lq :: rat where "hq = of_int H / 360" and "sq = of_int S / 100"
    and "lq = of_int L / 100"
  have qu: "0 \<le> hq" "hq \<le> 1" "0 \<le> sq" "sq \<le> 1" "0 \<le> lq" "lq \<le> 1"
    using B by (simp_all add: hq_def sq_def lq_def)
  from B have "\<exists>xr xg xb. hslToRgb (of_int H) (of_int S) (of_int L) =
        \<lparr>rgb_r = js_round (fmul xr 255), rgb_g = js_round (fmul xg 255),
         rgb_b = js_round (fmul xb 255)\<rparr> \<and>
      \<bar>xr - hslChannel (hq + 1 / 3) sq lq\<bar> \<le> 1 / 100000000 \<and>
      \<bar>xg - hslChannel hq sq lq\<bar> \<le> 1 / 100000000 \<and>
      \<bar>xb - hslChannel (hq - 1 / 3) sq lq\<bar> \<le> 1 / 100000000"
    unfolding hq_def sq_def lq_def by (intro hslToRgb_decodes) simp_all
  then obtain xr xg xb where
    out: "hslToRgb (of_int H) (of_int S) (of_int L) =
        \<lparr>rgb_r = js_round (fmul xr 255), rgb_g = js_round (fmul xg 255),
         rgb_b = js_round (fmul xb 255)\<rparr>"
    and xr: "\<bar>xr - hslChannel (hq + 1 / 3) sq lq\<bar> \<le> 1 / 100000000"
    and xg: "\<bar>xg - hslChannel hq sq lq\<bar> \<le> 1 / 100000000"
    and xb: "\<bar>xb - hslChannel (hq - 1 / 3) sq lq\<bar> \<le> 1 / 100000000"
    by blast
  have m: "0 \<le> mn" "mn \<le> mx" "mx \<le> 1" using u by (auto simp: mx_def mn_def)
  have span: "1 / 256 \<le> mx - mn" if "mx \<noteq> mn"
    using channel_span [OF r g b] that unfolding mx_def mn_def rn_def gn_def bn_def by simp
  define De Dh le where "De = mx - mn" and "Dh = (mx - mn) / 2" and "le = (mx + mn) / 2"
  have Dh: "2 * Dh = De" and le: "le = mn + Dh" and De: "0 \<le> De" "De \<le> 1"
    using m by (simp_all add: De_def Dh_def le_def field_simps)
  have enc: "\<bar>De * hueShape (h + 1 / 3) - (rn - mn)\<bar> \<le> 6 / 1000000000 \<and>
      \<bar>De * hueShape h - (gn - mn)\<bar> \<le> 6 / 1000000000 \<and>
      \<bar>De * hueShape (h - 1 / 3) - (bn - mn)\<bar> \<le> 6 / 1000000000"
    unfolding De_def h_def d_def mx_def mn_def
    by (rule hue_encodes [OF u]) (use span in \<open>simp add: mx_def mn_def\<close>)
  have le2: "2 * le = mx + mn" and Dh2: "2 * Dh = mx - mn" by (simp_all add: le_def Dh_def)
  have sat: "\<bar>l - le\<bar> \<le> 1 / 1000000000" "\<bar>s * min le (1 - le) - Dh\<bar> \<le> 1 / 1000000000"
    unfolding l_def s_def d_def by (rule sat_encodes [OF m span le2 Dh2], assumption)+
  have eh: "\<bar>hq - h\<bar> \<le> 1 / 720 + 1 / 1000000000"
    using hu by (intro quantize_hue) (simp_all add: hq_def H_def)
  have es: "\<bar>sq - s\<bar> \<le> 1 / 200 + 1 / 1000000000"
    using su by (intro quantize_percent) (simp_all add: sq_def S_def)
  have "\<bar>lq - l\<bar> \<le> 1 / 200 + 1 / 1000000000"
    using lu by (intro quantize_percent) (simp_all add: lq_def L_def)
  then have el: "\<bar>lq - le\<bar> \<le> 1 / 200 + 1 / 100000000" using sat(1) by linarith
  have es': "\<bar>sq - s\<bar> \<le> 1 / 200 + 1 / 100000000" using es by linarith
  have su': "0 \<le> s" "s \<le> 1" using su by simp_all
  have hu': "0 \<le> h" "h \<le> 1" using hu by simp_all
  have dr: "\<bar>xr - rn\<bar> \<le> 1 / 48 + 1 / 1000000"
  proof (rule channel_drift [OF xr _ sat(2) Dh le _ es' el _ _ _ _ su' qu(5,6) De])
    show "\<bar>De * hueShape (h + 1 / 3) - (rn - mn)\<bar> \<le> 6 / 1000000000" using enc by simp
    show "\<bar>hq + 1 / 3 - (h + 1 / 3)\<bar> \<le> 1 / 720 + 1 / 100000000" using eh by linarith
    show "- 1 / 2 \<le> hq + 1 / 3" "hq + 1 / 3 \<le> 3 / 2" "- 1 / 2 \<le> h + 1 / 3" "h + 1 / 3 \<le> 3 / 2"
      using qu hu' by linarith+
  qed
  have dg: "\<bar>xg - gn\<bar> \<le> 1 / 48 + 1 / 1000000"
  proof (rule channel_drift [OF xg _ sat(2) Dh le _ es' el _ _ _ _ su' qu(5,6) De])
    show "\<bar>De * hueShape h - (gn - mn)\<bar> \<le> 6 / 1000000000" using enc by simp
    show "\<bar>hq - h\<bar> \<le> 1 / 720 + 1 / 100000000" using eh by linarith
    show "- 1 / 2 \<le> hq" "hq \<le> 3 / 2" "- 1 / 2 \<le> h" "h \<le> 3 / 2"
      using qu hu' by linarith+
  qed
  have db: "\<bar>xb - bn\<bar> \<le> 1 / 48 + 1 / 1000000"
  proof (rule channel_drift [OF xb _ sat(2) Dh le _ es' el _ _ _ _ su' qu(5,6) De])
    show "\<bar>De * hueShape (h - 1 / 3) - (bn - mn)\<bar> \<le> 6 / 1000000000" using enc by simp
    show "\<bar>hq - 1 / 3 - (h - 1 / 3)\<bar> \<le> 1 / 720 + 1 / 100000000" using eh by linarith
    show "- 1 / 2 \<le> hq - 1 / 3" "hq - 1 / 3 \<le> 3 / 2" "- 1 / 2 \<le> h - 1 / 3" "h - 1 / 3 \<le> 3 / 2"
      using qu hu' by linarith+
  qed
  show ?thesis
    unfolding rt out rgb.simps
    using channel_back [OF r dr [unfolded rn_def]] channel_back [OF g dg [unfolded gn_def]]
      channel_back [OF b db [unfolded bn_def]]
    by simp
qed

text \<open>
  C1 (amended): for every RGB triple \<open>(r, g, b)\<close> with each channel an integer in
  \<open>[0, 255]\<close>, every channel of \<^verbatim>\<open>hslToRgb(rgbToHsl(r, g, b))\<close> differs from the
  corresponding original channel by at most 5, and 5 is attained: \<open>(2, 228, 230)\<close> comes back
  as \<open>(2, 223, 227)\<close>.
\<close>

theorem hsl_roundtrip_within_5:
  assumes "0 \<le> r" "r \<le> 255" "0 \<le> g" "g \<le> 255" "0 \<le> b" "b \<le> 255"
  shows "\<bar>rgb_r (hslRoundTrip r g b) - r\<bar> \<le> 5 \<and>
         \<bar>rgb_g (hslRoundTrip r g b) - g\<bar> \<le> 5 \<and>
         \<bar>rgb_b (hslRoundTrip r g b) - b\<bar> \<le> 5 \<and>
         hslRoundTrip 2 228 230 = \<lparr>rgb_r = 2, rgb_g = 223, rgb_b = 227\<rparr> \<and>
         \<bar>rgb_g (hslRoundTrip 2 228 230) - 228\<bar> = 5"
  using roundtrip_drift [OF assms] by (simp add: hslRoundTrip_teal)


text \<open>
  The claim C1 as stated, that every channel comes back within 1, fails: \<open>(3, 0, 0)\<close> has
  lightness 0.59 percent, rounded to 1, and saturation 100, and \<^verbatim>\<open>hslToRgb(0, 100, 1)\<close> is
  \<open>(5, 0, 0)\<close>.
\<close>

theorem hsl_roundtrip_counterexample:
  "hslRoundTrip 3 0 0 = \<lparr>rgb_r = 5, rgb_g = 0, rgb_b = 0\<rparr> \<and>
   \<not> \<bar>rgb_r (hslRoundTrip 3 0 0) - 3\<bar> \<le> 1"
  by (simp add: hslRoundTrip_def rgbToHsl_dark_red hslToRgb_dark_red)

theorem hsl_roundtrip_within_5_witness:
  "(0::int) \<le> 2 \<and> (2::int) \<le> 255 \<and> (0::int) \<le> 228 \<and> (228::int) \<le> 255 \<and>
   (0::int) \<le> 230 \<and> (230::int) \<le> 255 \<and>
   \<bar>rgb_r (hslRoundTrip 2 228 230) - 2\<bar> \<le> 5 \<and>
   \<bar>rgb_g (hslRoundTrip 2 228 230) - 228\<bar> \<le> 5 \<and>
   \<bar>rgb_b (hslRoundTrip 2 228 230) - 230\<bar> \<le> 5"
  using hsl_roundtrip_within_5 [of 2 228 230] by simp

end
